theory Spec2Isabelle
  imports Main "HOL-Library.Word"
begin

section \<open>SmartArray: a shallow embedding of \<open>src/SmartArray.h\<close>\<close>

text \<open>
  The C++ template \<open>SmartArray<T>\<close> owns a raw buffer \<open>T *m_data\<close> allocated with
  \<open>new T[n]\<close> and a \<open>size_t length\<close>.  The model keeps both as the code has them:
  \<^item> \<open>size_t\<close> is \<open>64 word\<close>, \<open>int\<close> is \<open>32 word\<close>; the conversions of the mixed
    comparisons and assignments are written out (\<open>scast\<close> for \<open>int \<rightarrow> size_t\<close>,
    \<open>ucast\<close> for the narrowing \<open>size_t \<rightarrow> int\<close>);
  \<^item> the free store is an explicit list of blocks; an address is the position of a
    block in that list, a pointer is a block address with an element offset;
  \<^item> every operation the C++ standard leaves undefined (reading or writing outside a
    block, using a released block, dereferencing the null pointer, an invalid
    \<open>delete\<close>) is an error value of its own, as is the \<open>throw\<close> of
    \<open>checkIndexOrSize\<close>.  Memory is assumed unbounded: \<open>new\<close> itself only fails for
    a negative array length.
\<close>

subsection \<open>Errors\<close>

datatype error =
    IndexOutOfBounds       \<comment> \<open>the \<open>throw\<close> of \<open>checkIndexOrSize\<close>\<close>
  | NullDeref              \<comment> \<open>access through the null pointer\<close>
  | OutOfBoundsRead        \<comment> \<open>read outside the block pointed into\<close>
  | OutOfBoundsWrite       \<comment> \<open>write outside the block pointed into\<close>
  | UseAfterFree           \<comment> \<open>access to a released block\<close>
  | InvalidDelete          \<comment> \<open>\<open>delete\<close> of a pointer no matching \<open>new\<close> returned\<close>
  | DoubleFree             \<comment> \<open>\<open>delete[]\<close> of a block already released\<close>
  | BadArrayNewLength      \<comment> \<open>\<open>new T[n]\<close> with negative \<open>n\<close>\<close>
  | SignedOverflow         \<comment> \<open>\<open>i++\<close> on \<open>INT_MAX\<close>\<close>

subsection \<open>The free store\<close>

datatype 'a cell = Indeterminate | Value 'a

datatype 'a block = Freed | Array "'a cell list"

type_synonym 'a heap = "'a block list"

datatype ptr = NULL | Ptr nat int

text \<open>Pointer arithmetic \<open>p + k\<close>.\<close>

fun ptr_add :: "ptr \<Rightarrow> int \<Rightarrow> ptr" where
  "ptr_add NULL k = NULL"
| "ptr_add (Ptr b off) k = Ptr b (off + k)"

text \<open>\<open>new T[n]\<close> with the given initial cells: a fresh block at the next address.\<close>

definition new_array :: "'a cell list \<Rightarrow> 'a heap \<Rightarrow> ptr \<times> 'a heap" where
  "new_array cs h = (Ptr (length h) 0, h @ [Array cs])"

text \<open>\<open>delete[] p\<close>.\<close>

definition delete_array :: "ptr \<Rightarrow> 'a heap \<Rightarrow> error + 'a heap" where
  "delete_array p h =
     (case p of
        NULL \<Rightarrow> Inr h
      | Ptr b off \<Rightarrow>
          if off \<noteq> 0 \<or> length h \<le> b then Inl InvalidDelete
          else (case h ! b of
                  Freed \<Rightarrow> Inl DoubleFree
                | Array cs \<Rightarrow> Inr (h[b := Freed])))"

text \<open>
  \<open>delete p\<close> (the scalar form).  Every block of this store comes from \<open>new T[n]\<close>,
  so the scalar form is defined for the null pointer only.
\<close>

definition delete_scalar :: "ptr \<Rightarrow> 'a heap \<Rightarrow> error + 'a heap" where
  "delete_scalar p h = (case p of NULL \<Rightarrow> Inr h | Ptr b off \<Rightarrow> Inl InvalidDelete)"

text \<open>Reading \<open>n\<close> consecutive cells starting at \<open>p\<close>; no access at all when \<open>n = 0\<close>.\<close>

definition load_range :: "ptr \<Rightarrow> nat \<Rightarrow> 'a heap \<Rightarrow> error + 'a cell list" where
  "load_range p n h =
     (if n = 0 then Inr []
      else (case p of
              NULL \<Rightarrow> Inl NullDeref
            | Ptr b off \<Rightarrow>
                if length h \<le> b then Inl OutOfBoundsRead
                else (case h ! b of
                        Freed \<Rightarrow> Inl UseAfterFree
                      | Array cs \<Rightarrow>
                          if 0 \<le> off \<and> nat off + n \<le> length cs
                          then Inr (take n (drop (nat off) cs))
                          else Inl OutOfBoundsRead)))"

text \<open>Writing the cells \<open>vs\<close> to consecutive positions starting at \<open>p\<close>.\<close>

definition store_range :: "ptr \<Rightarrow> 'a cell list \<Rightarrow> 'a heap \<Rightarrow> error + 'a heap" where
  "store_range p vs h =
     (if vs = [] then Inr h
      else (case p of
              NULL \<Rightarrow> Inl NullDeref
            | Ptr b off \<Rightarrow>
                if length h \<le> b then Inl OutOfBoundsWrite
                else (case h ! b of
                        Freed \<Rightarrow> Inl UseAfterFree
                      | Array cs \<Rightarrow>
                          if 0 \<le> off \<and> nat off + length vs \<le> length cs
                          then Inr (h[b := Array (take (nat off) cs @ vs @
                                                  drop (nat off + length vs) cs)])
                          else Inl OutOfBoundsWrite)))"

text \<open>\<open>std::copy(first, first + n, out)\<close> between two distinct blocks.\<close>

definition std_copy :: "ptr \<Rightarrow> nat \<Rightarrow> ptr \<Rightarrow> 'a heap \<Rightarrow> error + 'a heap" where
  "std_copy first n out h =
     (case load_range first n h of
        Inl e \<Rightarrow> Inl e
      | Inr vs \<Rightarrow> store_range out vs h)"

text \<open>Reading and writing through a reference \<open>T&\<close> (a pointer to one cell).\<close>

definition load :: "ptr \<Rightarrow> 'a heap \<Rightarrow> error + 'a cell" where
  "load p h = (case load_range p 1 h of Inl e \<Rightarrow> Inl e | Inr vs \<Rightarrow> Inr (hd vs))"

definition store :: "ptr \<Rightarrow> 'a cell \<Rightarrow> 'a heap \<Rightarrow> error + 'a heap" where
  "store p v h = store_range p [v] h"

subsection \<open>The container\<close>

record SmartArray =
  m_data :: ptr
  length' :: "64 word"

text \<open>The default constructor, and the one adopting a raw buffer.\<close>

definition SmartArray_default :: SmartArray where
  "SmartArray_default = \<lparr>m_data = NULL, length' = 0\<rparr>"

definition SmartArray_raw :: "ptr \<Rightarrow> 64 word \<Rightarrow> SmartArray" where
  "SmartArray_raw p n = \<lparr>m_data = p, length' = n\<rparr>"

text \<open>
  \<open>SmartArray(size_t length)\<close>: \<open>new T[length]{}\<close>, every cell value-initialised;
  \<open>dv\<close> is the value \<open>T{}\<close>.
\<close>

definition SmartArray_sized :: "'a \<Rightarrow> 64 word \<Rightarrow> 'a heap \<Rightarrow> SmartArray \<times> 'a heap" where
  "SmartArray_sized dv n h =
     (let (p, h1) = new_array (replicate (unat n) (Value dv)) h
      in (\<lparr>m_data = p, length' = n\<rparr>, h1))"

text \<open>The copy constructor \<open>SmartArray(SmartArray<T>& other)\<close>.\<close>

definition SmartArray_copy :: "SmartArray \<Rightarrow> 'a heap \<Rightarrow> (error + SmartArray) \<times> 'a heap" where
  "SmartArray_copy other h =
     (let (p, h1) = new_array (replicate (unat (length' other)) Indeterminate) h
      in (case std_copy (m_data other) (unat (length' other)) p h1 of
            Inl e \<Rightarrow> (Inl e, h1)
          | Inr h2 \<Rightarrow> (Inr \<lparr>m_data = p, length' = length' other\<rparr>, h2)))"

text \<open>The destructor: \<open>delete[] m_data\<close>.\<close>

definition SmartArray_dtor :: "SmartArray \<Rightarrow> 'a heap \<Rightarrow> error + 'a heap" where
  "SmartArray_dtor sa h = delete_array (m_data sa) h"

text \<open>
  \<open>checkIndexOrSize(int index)\<close>: the test is \<open>index < -length && index >= length\<close>
  with \<open>length\<close> a \<open>size_t\<close>, so \<open>-length\<close> is the unsigned negation and \<open>index\<close> is
  converted to \<open>size_t\<close> in both comparisons.  The failing branch releases the buffer
  before it throws; \<open>m_data\<close> keeps pointing at it.  The statement is a bare
  \<open>throw;\<close> outside any handler, which ends the program; the model records it as
  \<open>IndexOutOfBounds\<close> together with the store as it is at that point.
\<close>

definition checkIndexOrSize :: "SmartArray \<Rightarrow> 'a heap \<Rightarrow> 32 word \<Rightarrow> (error + unit) \<times> 'a heap" where
  "checkIndexOrSize sa h index =
     (if (scast index :: 64 word) < - length' sa \<and> length' sa \<le> (scast index :: 64 word)
      then (case delete_array (m_data sa) h of
              Inl e \<Rightarrow> (Inl e, h)
            | Inr h1 \<Rightarrow> (Inl IndexOutOfBounds, h1))
      else (Inr (), h))"

definition size' :: "SmartArray \<Rightarrow> 64 word" where
  "size' sa = length' sa"

definition erase :: "SmartArray \<Rightarrow> SmartArray" where
  "erase sa = sa\<lparr>length' := 0, m_data := NULL\<rparr>"

text \<open>
  \<open>operator[](int index)\<close> returns a reference: the model returns the pointer
  \<open>m_data + index\<close> after the check and the normalisation
  \<open>if (index < 0) index = length + index\<close> (computed in \<open>size_t\<close>, narrowed to \<open>int\<close>).
\<close>

definition subscript :: "SmartArray \<Rightarrow> 'a heap \<Rightarrow> 32 word \<Rightarrow> (error + ptr) \<times> 'a heap" where
  "subscript sa h index =
     (case checkIndexOrSize sa h index of
        (Inl e, h1) \<Rightarrow> (Inl e, h1)
      | (Inr _, h1) \<Rightarrow>
          (let index1 = (if index <s 0 then ucast (length' sa + scast index) else index)
           in (Inr (ptr_add (m_data sa) (sint (index1 :: 32 word))), h1)))"

text \<open>
  \<open>resize(size_t new_sz)\<close>.  For \<open>new_sz = 0\<close> it only calls \<open>erase()\<close> (nothing is
  released).  Otherwise it allocates \<open>new T[new_sz]\<close>, runs
  \<open>std::copy(m_data, m_data + new_sz, arr)\<close>, which reads \<open>new_sz\<close> cells of the old
  buffer, releases the old buffer and installs the new one.
\<close>

definition resize :: "SmartArray \<Rightarrow> 'a heap \<Rightarrow> 64 word \<Rightarrow> (error + unit) \<times> SmartArray \<times> 'a heap" where
  "resize sa h new_sz =
     (if new_sz = 0 then (Inr (), erase sa, h)
      else
        (let (arr, h1) = new_array (replicate (unat new_sz) Indeterminate) h
         in (case std_copy (m_data sa) (unat new_sz) arr h1 of
               Inl e \<Rightarrow> (Inl e, sa, h1)
             | Inr h2 \<Rightarrow>
                 (case delete_array (m_data sa) h2 of
                    Inl e \<Rightarrow> (Inl e, sa, h2)
                  | Inr h3 \<Rightarrow> (Inr (), sa\<lparr>length' := new_sz, m_data := arr\<rparr>, h3)))))"

text \<open>
  \<open>std::ceil(length * 1.125)\<close> converted back to \<open>size_t\<close>.  The factor \<open>1.125 = 9/8\<close>
  is a binary fraction, so the product is exact in a \<open>double\<close> as long as
  \<open>9 * length < 2^53\<close>, and the result is the integer ceiling of \<open>9 * length / 8\<close>.
  Every statement below about \<open>put\<close> assumes \<open>length < 2^31\<close>.
\<close>

definition grow_size :: "64 word \<Rightarrow> 64 word" where
  "grow_size n = word_of_nat ((9 * unat n + 7) div 8)"

text \<open>
  \<open>put(T input, int index = -1)\<close>.  The conditional
  \<open>index < 0 ? old_length + 1 + index : index\<close> has type \<open>size_t\<close> and is narrowed
  to \<open>int\<close> by the assignment; \<open>m_data[index] = input\<close> then writes one cell.
\<close>

definition put :: "SmartArray \<Rightarrow> 'a heap \<Rightarrow> 'a \<Rightarrow> 32 word \<Rightarrow> (error + unit) \<times> SmartArray \<times> 'a heap" where
  "put sa h input index =
     (case checkIndexOrSize sa h index of
        (Inl e, h1) \<Rightarrow> (Inl e, sa, h1)
      | (Inr _, h1) \<Rightarrow>
          (let old_length = length' sa
           in (case resize sa h1 (grow_size (length' sa)) of
                 (Inl e, sa1, h2) \<Rightarrow> (Inl e, sa1, h2)
               | (Inr _, sa1, h2) \<Rightarrow>
                   (let index1 = (if index <s 0 then ucast (old_length + 1 + scast index)
                                  else index)
                    in (case store (ptr_add (m_data sa1) (sint (index1 :: 32 word)))
                                   (Value input) h2 of
                          Inl e \<Rightarrow> (Inl e, sa1, h2)
                        | Inr h3 \<Rightarrow> (Inr (), sa1, h3))))))"

definition append :: "SmartArray \<Rightarrow> 'a heap \<Rightarrow> 'a \<Rightarrow> (error + unit) \<times> SmartArray \<times> 'a heap" where
  "append sa h input = put sa h input (- 1)"

text \<open>
  \<open>pop(int index = -1)\<close>: after the check, \<open>delete (m_data + index)\<close> (the scalar
  form, on the normalised index \<open>length + 1 + index\<close>), then \<open>resize(length - 1)\<close>.
\<close>

definition pop :: "SmartArray \<Rightarrow> 'a heap \<Rightarrow> 32 word \<Rightarrow> (error + unit) \<times> SmartArray \<times> 'a heap" where
  "pop sa h index =
     (case checkIndexOrSize sa h index of
        (Inl e, h1) \<Rightarrow> (Inl e, sa, h1)
      | (Inr _, h1) \<Rightarrow>
          (let index1 = (if index <s 0 then ucast (length' sa + 1 + scast index)
                         else index)
           in (case delete_scalar (ptr_add (m_data sa) (sint (index1 :: 32 word))) h1 of
                 Inl e \<Rightarrow> (Inl e, sa, h1)
               | Inr h2 \<Rightarrow> resize sa h2 (length' sa - 1))))"

text \<open>
  \<open>from_arr(const T *arr, size_t arr_len)\<close>: \<open>resize(arr_len)\<close>, then the loop
  \<open>for (int i = 0; i < arr_len; i++) m_data[i] = arr[i]\<close>, where \<open>i\<close> is converted to
  \<open>size_t\<close> for the comparison.
\<close>

function from_arr_loop :: "SmartArray \<Rightarrow> ptr \<Rightarrow> 64 word \<Rightarrow> 32 word \<Rightarrow> 'a heap \<Rightarrow> (error + unit) \<times> 'a heap" where
  "from_arr_loop sa arr arr_len i h =
     (if (scast i :: 64 word) < arr_len then
        (case load (ptr_add arr (sint i)) h of
           Inl e \<Rightarrow> (Inl e, h)
         | Inr v \<Rightarrow>
             (case store (ptr_add (m_data sa) (sint i)) v h of
                Inl e \<Rightarrow> (Inl e, h)
              | Inr h1 \<Rightarrow>
                  if sint i = 2 ^ 31 - 1 then (Inl SignedOverflow, h1)
                  else from_arr_loop sa arr arr_len (i + 1) h1))
      else (Inr (), h))"
  by pat_completeness auto
termination
proof (relation "measure (\<lambda>(sa, arr, arr_len, i, h). nat (2 ^ 31 - sint i))")
  show "wf (measure (\<lambda>(sa :: SmartArray, arr :: ptr, arr_len :: 64 word, i :: 32 word,
                       h :: 'a heap). nat (2 ^ 31 - sint i)))"
    by simp
next
  fix sa :: SmartArray and arr :: ptr and arr_len :: "64 word" and i :: "32 word"
    and h h1 :: "'a heap" and v :: "'a cell"
  assume "sint i \<noteq> 2 ^ 31 - 1"
  moreover have "- (2 ^ 31) \<le> sint i" "sint i < 2 ^ 31"
    using sint_ge [of i] sint_lt [of i] by simp_all
  ultimately have "sint (i + 1) = sint i + 1"
    by (simp add: sint_word_ariths signed_take_bit_int_eq_self)
  with \<open>sint i < 2 ^ 31\<close>
  show "((sa, arr, arr_len, i + 1, h1), (sa, arr, arr_len, i, h))
          \<in> measure (\<lambda>(sa, arr, arr_len, i, h). nat (2 ^ 31 - sint i))"
    by simp
qed

definition from_arr :: "SmartArray \<Rightarrow> 'a heap \<Rightarrow> ptr \<Rightarrow> 64 word \<Rightarrow> (error + unit) \<times> SmartArray \<times> 'a heap" where
  "from_arr sa h arr arr_len =
     (case resize sa h arr_len of
        (Inl e, sa1, h1) \<Rightarrow> (Inl e, sa1, h1)
      | (Inr _, sa1, h1) \<Rightarrow>
          (case from_arr_loop sa1 arr arr_len 0 h1 of
             (Inl e, h2) \<Rightarrow> (Inl e, sa1, h2)
           | (Inr _, h2) \<Rightarrow> (Inr (), sa1, h2)))"

text \<open>
  \<open>to_arr(int new_sz = -1)\<close>: the size goes through \<open>checkIndexOrSize\<close> like an index;
  a negative size is replaced by \<open>length + new_sz\<close>; \<open>new T[new_sz]\<close> takes the
  \<open>int\<close> as it is.
\<close>

definition to_arr :: "SmartArray \<Rightarrow> 'a heap \<Rightarrow> 32 word \<Rightarrow> (error + ptr) \<times> 'a heap" where
  "to_arr sa h new_sz =
     (case checkIndexOrSize sa h new_sz of
        (Inl e, h1) \<Rightarrow> (Inl e, h1)
      | (Inr _, h1) \<Rightarrow>
          if new_sz = 0 then (Inr NULL, h1)
          else
            (let new_sz1 = (if new_sz <s 0 then ucast (length' sa + scast new_sz)
                            else new_sz) :: 32 word
             in if sint new_sz1 < 0 then (Inl BadArrayNewLength, h1)
                else
                  (let (arr, h2) = new_array (replicate (nat (sint new_sz1)) Indeterminate) h1
                   in (case std_copy (m_data sa) (nat (sint new_sz1)) arr h2 of
                         Inl e \<Rightarrow> (Inl e, h2)
                       | Inr h3 \<Rightarrow> (Inr arr, h3)))))"

text \<open>
  \<open>operator+(SmartArray& other)\<close>, for two distinct objects: \<open>resize\<close> to the sum of
  the lengths, then \<open>std::copy(other.m_data, other.m_data + old_length,
  m_data + old_length)\<close>.
\<close>

definition operator_plus :: "SmartArray \<Rightarrow> SmartArray \<Rightarrow> 'a heap \<Rightarrow> (error + unit) \<times> SmartArray \<times> 'a heap" where
  "operator_plus sa other h =
     (let old_length = length' sa
      in (case resize sa h (length' sa + length' other) of
            (Inl e, sa1, h1) \<Rightarrow> (Inl e, sa1, h1)
          | (Inr _, sa1, h1) \<Rightarrow>
              (case std_copy (m_data other) (unat old_length)
                             (ptr_add (m_data sa1) (uint old_length)) h1 of
                 Inl e \<Rightarrow> (Inl e, sa1, h1)
               | Inr h2 \<Rightarrow> (Inr (), sa1, h2))))"

text \<open>
  The traversal \<open>for (auto i : a)\<close>: the cells from \<open>begin() = m_data\<close> up to
  \<open>end() = m_data + length\<close>.
\<close>

definition range_for :: "SmartArray \<Rightarrow> 'a heap \<Rightarrow> error + 'a cell list" where
  "range_for sa h = load_range (m_data sa) (unat (length' sa)) h"

text \<open>Reading through \<open>operator[]\<close>: \<open>a[index]\<close> used as a value.\<close>

definition get :: "SmartArray \<Rightarrow> 'a heap \<Rightarrow> 32 word \<Rightarrow> (error + 'a cell) \<times> 'a heap" where
  "get sa h index =
     (case subscript sa h index of
        (Inl e, h1) \<Rightarrow> (Inl e, h1)
      | (Inr p, h1) \<Rightarrow> (case load p h1 of Inl e \<Rightarrow> (Inl e, h1) | Inr v \<Rightarrow> (Inr v, h1)))"

subsection \<open>The reversed view\<close>

text \<open>
  \<open>SmartArrayReverse<T>\<close> derives from \<open>SmartArray<T>\<close> (its own \<open>m_data\<close> and
  \<open>length\<close> stay those of the default constructor) and holds the member \<open>iter\<close>.
\<close>

record SmartArrayReverse = SmartArray +
  iter :: SmartArray

text \<open>
  The loop of \<open>reverse()\<close>: \<open>for (size_t i = 0; i < iter.length; i++)
  buffer[-i-1] = iter[i]\<close>.  Both subscripts take an \<open>int\<close>, so \<open>i\<close> and \<open>-i-1\<close>
  are narrowed.
\<close>

function reverse_loop :: "SmartArray \<Rightarrow> SmartArray \<Rightarrow> 64 word \<Rightarrow> 'a heap \<Rightarrow> (error + unit) \<times> 'a heap" where
  "reverse_loop it buffer i h =
     (if i < length' it then
        (case subscript it h (ucast i) of
           (Inl e, h1) \<Rightarrow> (Inl e, h1)
         | (Inr src, h1) \<Rightarrow>
             (case subscript buffer h1 (ucast (- i - 1)) of
                (Inl e, h2) \<Rightarrow> (Inl e, h2)
              | (Inr dst, h2) \<Rightarrow>
                  (case load src h2 of
                     Inl e \<Rightarrow> (Inl e, h2)
                   | Inr v \<Rightarrow>
                       (case store dst v h2 of
                          Inl e \<Rightarrow> (Inl e, h2)
                        | Inr h3 \<Rightarrow> reverse_loop it buffer (i + 1) h3))))
      else (Inr (), h))"
  by pat_completeness auto
termination
proof (relation "measure (\<lambda>(it, buffer, i, h). unat (length' it) - unat i)")
  show "wf (measure (\<lambda>(it :: SmartArray, buffer :: SmartArray, i :: 64 word, h :: 'a heap).
                       unat (length' it) - unat i))"
    by simp
next
  fix it buffer :: SmartArray and i :: "64 word" and h h3 :: "'a heap"
  assume "i < length' it"
  then have "unat i < unat (length' it)"
    by (simp add: word_less_nat_alt)
  moreover have "unat (length' it) < 2 ^ 64"
    using unsigned_less [of "length' it"] by simp
  ultimately have "unat i + 1 < 2 ^ 64"
    by linarith
  then have "(unat i + 1) mod 2 ^ 64 = unat i + 1"
    by (rule mod_less)
  then have "unat (i + 1) = unat i + 1"
    by (simp add: unat_word_ariths)
  with \<open>unat i < unat (length' it)\<close>
  show "((it, buffer, i + 1, h3), (it, buffer, i, h))
          \<in> measure (\<lambda>(it, buffer, i, h). unat (length' it) - unat i)"
    by simp
qed

text \<open>
  \<open>reverse()\<close>: a value-initialised \<open>buffer(iter.length)\<close>, the loop, the copy of the
  buffer back over \<open>iter\<close>, and the destructor of the local \<open>buffer\<close>.
\<close>

definition reverse :: "'a \<Rightarrow> SmartArrayReverse \<Rightarrow> 'a heap \<Rightarrow> (error + unit) \<times> 'a heap" where
  "reverse dv view h =
     (let (buffer, h1) = SmartArray_sized dv (length' (iter view)) h
      in (case reverse_loop (iter view) buffer 0 h1 of
            (Inl e, h2) \<Rightarrow> (Inl e, h2)
          | (Inr _, h2) \<Rightarrow>
              (case std_copy (m_data buffer) (unat (length' buffer)) (m_data (iter view)) h2 of
                 Inl e \<Rightarrow> (Inl e, h2)
               | Inr h3 \<Rightarrow>
                   (case SmartArray_dtor buffer h3 of
                      Inl e \<Rightarrow> (Inl e, h3)
                    | Inr h4 \<Rightarrow> (Inr (), h4)))))"

text \<open>
  The constructor \<open>SmartArrayReverse(SmartArray<T> arr): iter{arr} {reverse();}\<close>
  called on a container \<open>source\<close>: the by-value parameter \<open>arr\<close> is copy-constructed
  from \<open>source\<close>, the base is default-constructed, \<open>iter\<close> is copy-constructed from
  \<open>arr\<close>, the body runs, and \<open>arr\<close> is destroyed on return.
\<close>

definition SmartArrayReverse_ctor :: "'a \<Rightarrow> SmartArray \<Rightarrow> 'a heap \<Rightarrow> (error + SmartArrayReverse) \<times> 'a heap" where
  "SmartArrayReverse_ctor dv source h =
     (case SmartArray_copy source h of
        (Inl e, h1) \<Rightarrow> (Inl e, h1)
      | (Inr arr, h1) \<Rightarrow>
          (case SmartArray_copy arr h1 of
             (Inl e, h2) \<Rightarrow> (Inl e, h2)
           | (Inr it, h2) \<Rightarrow>
               (let view = \<lparr>m_data = NULL, length' = 0, iter = it\<rparr>
                in (case reverse dv view h2 of
                      (Inl e, h3) \<Rightarrow> (Inl e, h3)
                    | (Inr _, h3) \<Rightarrow>
                        (case SmartArray_dtor arr h3 of
                           Inl e \<Rightarrow> (Inl e, h3)
                         | Inr h4 \<Rightarrow> (Inr view, h4))))))"

text \<open>
  The view's own \<open>begin()\<close> and \<open>end()\<close> are \<open>iter.m_data\<close> and
  \<open>iter.m_data + iter.length\<close>: a range-based loop over the view walks \<open>iter\<close>.
\<close>

definition range_for_reverse :: "SmartArrayReverse \<Rightarrow> 'a heap \<Rightarrow> error + 'a cell list" where
  "range_for_reverse view h = range_for (iter view) h"

subsection \<open>Sequences of mutations\<close>

text \<open>
  The mutating operations of a container as data, and the run of a sequence of them on
  one container object; the run ends at the first operation that does not return.
\<close>

datatype 'a mutation =
    Put 'a "32 word"         \<comment> \<open>\<open>a.put(v, i)\<close>\<close>
  | Append 'a                \<comment> \<open>\<open>a.append(v)\<close>\<close>
  | Pop "32 word"            \<comment> \<open>\<open>a.pop(i)\<close>\<close>
  | Plus SmartArray          \<comment> \<open>\<open>a + other\<close>\<close>
  | FromArr ptr "64 word"    \<comment> \<open>\<open>a.from_arr(arr, n)\<close>\<close>

fun mutate :: "'a mutation \<Rightarrow> SmartArray \<Rightarrow> 'a heap \<Rightarrow> (error + unit) \<times> SmartArray \<times> 'a heap" where
  "mutate (Put v i) sa h = put sa h v i"
| "mutate (Append v) sa h = append sa h v"
| "mutate (Pop i) sa h = pop sa h i"
| "mutate (Plus other) sa h = operator_plus sa other h"
| "mutate (FromArr arr n) sa h = from_arr sa h arr n"

fun mutate_all :: "'a mutation list \<Rightarrow> SmartArray \<Rightarrow> 'a heap \<Rightarrow> (error + unit) \<times> SmartArray \<times> 'a heap" where
  "mutate_all [] sa h = (Inr (), sa, h)"
| "mutate_all (m # ms) sa h =
     (case mutate m sa h of
        (Inl e, sa1, h1) \<Rightarrow> (Inl e, sa1, h1)
      | (Inr _, sa1, h1) \<Rightarrow> mutate_all ms sa1 h1)"

text \<open>
  Two notions for stating which blocks an operation can touch: a pointer points into a
  block, and a store keeps a block (it did not shrink and the block is as it was).
\<close>

fun points_into :: "ptr \<Rightarrow> nat \<Rightarrow> bool" where
  "points_into NULL b = False"
| "points_into (Ptr a off) b = (a = b)"

definition keeps_block :: "nat \<Rightarrow> 'a heap \<Rightarrow> 'a heap \<Rightarrow> bool" where
  "keeps_block b h h' \<longleftrightarrow> length h \<le> length h' \<and> h' ! b = h ! b"

subsection \<open>Containers that own a live buffer\<close>

text \<open>
  \<open>live_buffer sa h b cs\<close>: \<open>m_data\<close> points at the start of block \<open>b\<close> of the store,
  the block has not been released, its cells are \<open>cs\<close>, and it has room for at least
  \<open>length\<close> elements.  The sized and the copy constructor produce buffers of exactly
  \<open>length\<close> cells; the constructor adopting a raw buffer may be given a larger one.
\<close>

definition live_buffer :: "SmartArray \<Rightarrow> 'a heap \<Rightarrow> nat \<Rightarrow> 'a cell list \<Rightarrow> bool" where
  "live_buffer sa h b cs \<longleftrightarrow>
     m_data sa = Ptr b 0 \<and> b < length h \<and> h ! b = Array cs \<and> unat (length' sa) \<le> length cs"

text \<open>
  The invariant of the data model: a container is in the absent state (null \<open>m_data\<close>,
  length 0) or it owns a live buffer with room for \<open>length\<close> elements.
\<close>

definition valid :: "SmartArray \<Rightarrow> 'a heap \<Rightarrow> bool" where
  "valid sa h \<longleftrightarrow>
     (case m_data sa of
        NULL \<Rightarrow> length' sa = 0
      | Ptr b off \<Rightarrow>
          off = 0 \<and> b < length h \<and>
          (case h ! b of Freed \<Rightarrow> False | Array cs \<Rightarrow> unat (length' sa) \<le> length cs))"

subsection \<open>Example objects\<close>

text \<open>
  The container \<open>{1, 2, 3}\<close> of the scenarios: a buffer of exactly three cells at
  address 0, adopted by \<open>SmartArray<int> a(new int[3]{1, 2, 3}, 3)\<close>.
\<close>

abbreviation store_123 :: "int heap" where
  "store_123 \<equiv> [Array [Value 1, Value 2, Value 3]]"

abbreviation array_123 :: SmartArray where
  "array_123 \<equiv> SmartArray_raw (Ptr 0 0) 3"

section \<open>Arithmetic of the index conversions\<close>

text \<open>
  What the mixed \<open>int\<close>/\<open>size_t\<close> expressions of the source compute, read back as
  integers.
\<close>

lemma sint32_range: "- (2 ^ 31) \<le> sint (i::32 word) \<and> sint i < 2 ^ 31"
  using sint_ge [of i] sint_lt [of i] by simp

lemma uint64_range: "0 \<le> uint (n::64 word) \<and> uint n < 2 ^ 64"
  using uint_lt2p [of n] by simp

lemma sint_scast_32_64: "sint (scast (i::32 word) :: 64 word) = sint i"
  by (rule sint_up_scast) (simp add: is_up)

lemma uint_scast_32_64:
  "uint (scast (i::32 word) :: 64 word) = (if 0 \<le> sint i then sint i else 2 ^ 64 + sint i)"
proof -
  have "uint (scast i :: 64 word) = sint i mod 2 ^ 64"
    using uint_sint [of "scast i :: 64 word"] 
    by (simp only: sint_scast_32_64 take_bit_eq_mod) simp
  moreover have "sint i mod 2 ^ 64 = sint i" if "0 \<le> sint i"
    using that sint32_range [of i] by (intro mod_pos_pos_trivial) auto
  moreover have "sint i mod 2 ^ 64 = 2 ^ 64 + sint i" if "sint i < 0"
  proof -
    have "(sint i + 2 ^ 64) mod 2 ^ 64 = sint i + 2 ^ 64"
      using that sint32_range [of i] by (intro mod_pos_pos_trivial) auto
    then show ?thesis by simp
  qed
  ultimately show ?thesis by auto
qed

lemma uint_minus_64:
  "uint (- (n::64 word)) = (if n = 0 then 0 else 2 ^ 64 - uint n)"
proof (cases "n = 0")
  case True then show ?thesis by simp
next
  case False
  then have "0 < uint n"
    by (metis unsigned_eq_0_iff word_less_iff_unsigned bot_nat_0.not_eq_extremum)
  have "(2 ^ 64 - uint n) mod 2 ^ 64 = 2 ^ 64 - uint n"
    using uint64_range [of n] \<open>0 < uint n\<close> by (intro mod_pos_pos_trivial) auto
  moreover have "(- uint n) mod 2 ^ 64 = (2 ^ 64 - uint n) mod 2 ^ 64"
    by simp
  ultimately show ?thesis using False
    by (simp add: uint_word_ariths)
qed

lemma sint_ucast_gen: "sint (ucast (w::64 word) :: 32 word) = (uint w + 2 ^ 31) mod 2 ^ 32 - 2 ^ 31"
  using int_word_sint [where 'a = 32, of "uint w"] by simp

lemma sint_ucast_64_32:
  assumes "uint (w::64 word) < 2 ^ 31"
  shows "sint (ucast w :: 32 word) = uint w"
proof -
  have "(uint w + 2 ^ 31) mod 2 ^ 32 = uint w + 2 ^ 31"
    using assms uint64_range [of w] by (intro mod_pos_pos_trivial) auto
  then show ?thesis by (simp add: sint_ucast_gen)
qed

lemma sint_ucast_64_32_neg:
  assumes "2 ^ 64 - 2 ^ 31 \<le> uint (w::64 word)" 
  shows "sint (ucast w :: 32 word) = uint w - 2 ^ 64"
proof -
  have "(uint w - 2 ^ 64 + 2 ^ 31 + 2 ^ 32 * 2 ^ 32) mod 2 ^ 32 = (uint w - 2 ^ 64 + 2 ^ 31) mod 2 ^ 32"
    by (rule mod_mult_self2)
  moreover have "(uint w - 2 ^ 64 + 2 ^ 31) mod 2 ^ 32 = uint w - 2 ^ 64 + 2 ^ 31"
    using assms uint64_range [of w] by (intro mod_pos_pos_trivial) auto
  ultimately have "(uint w + 2 ^ 31) mod 2 ^ 32 = uint w - 2 ^ 64 + 2 ^ 31" by (simp add: add.commute)
  then show ?thesis by (simp add: sint_ucast_gen)
qed


lemma check_cond_in_range_nonneg:
  fixes i :: "32 word" and n :: "64 word"
  assumes "0 \<le> sint i" "sint i < uint n"
  shows "\<not> ((scast i :: 64 word) < - n \<and> n \<le> (scast i :: 64 word))"
  using assms by (simp add: word_le_def uint_scast_32_64)

lemma check_cond_in_range_neg:
  fixes i :: "32 word" and n :: "64 word"
  assumes "sint i < 0" "- uint n \<le> sint i"
  shows "\<not> ((scast i :: 64 word) < - n \<and> n \<le> (scast i :: 64 word))"
proof -
  from assms have "n \<noteq> 0" by auto
  with assms show ?thesis
    by (simp add: word_less_def uint_scast_32_64 uint_minus_64)
qed

lemma check_cond_out_of_range:
  fixes i :: "32 word" and n :: "64 word"
  assumes "n \<noteq> 0" "uint n \<le> sint i \<or> sint i < - uint n"
  shows "(scast i :: 64 word) < - n \<and> n \<le> (scast i :: 64 word)"
  using assms sint32_range [of i] uint64_range [of n]
  by (auto simp add: word_less_def word_le_def uint_scast_32_64 uint_minus_64)

lemma uint_plus_scast:
  fixes i :: "32 word" and n :: "64 word"
  assumes "0 \<le> uint n + sint i" "uint n + sint i < 2 ^ 64"
  shows "uint (n + scast i) = uint n + sint i"
proof (cases "0 \<le> sint i")
  case True
  have "(uint n + sint i) mod 2 ^ 64 = uint n + sint i"
    using assms by (intro mod_pos_pos_trivial) auto
  with True show ?thesis
    by (simp add: uint_word_ariths uint_scast_32_64)
next
  case False
  have "uint n + (2 ^ 64 + sint i) = (uint n + sint i) + 2 ^ 64"
    by simp
  then have "(uint n + (2 ^ 64 + sint i)) mod 2 ^ 64 = (uint n + sint i) mod 2 ^ 64"
    by (simp only: mod_add_self2)
  also have "\<dots> = uint n + sint i"
    using assms by (intro mod_pos_pos_trivial) auto
  finally show ?thesis using False
    by (simp add: uint_word_ariths uint_scast_32_64)
qed

lemma uint_succ_64:
  fixes n :: "64 word"
  assumes "uint n < 2 ^ 64 - 1"
  shows "uint (n + 1) = uint n + 1"
proof -
  have "(uint n + 1) mod 2 ^ 64 = uint n + 1"
    using assms uint64_range [of n] by (intro mod_pos_pos_trivial) auto
  then show ?thesis
    by (simp add: uint_word_ariths)
qed

lemma norm_index_neg:
  fixes i :: "32 word" and n :: "64 word"
  assumes "sint i < 0" "- uint n \<le> sint i" "uint n + sint i < 2 ^ 31"
  shows "sint (ucast (n + scast i) :: 32 word) = uint n + sint i"
proof -
  have "uint (n + scast i) = uint n + sint i"
    using assms uint64_range [of n] by (intro uint_plus_scast) auto
  then show ?thesis
    using sint_ucast_64_32 [of "n + scast i"] assms by simp
qed

lemma norm_index_put_neg:
  fixes i :: "32 word" and n :: "64 word"
  assumes "sint i < 0" "- uint n - 1 \<le> sint i" "uint n < 2 ^ 31"
  shows "sint (ucast (n + 1 + scast i) :: 32 word) = uint n + 1 + sint i"
proof -
  have n1: "uint (n + 1) = uint n + 1"
    using assms by (intro uint_succ_64) auto
  have "uint (n + 1 + scast i) = uint (n + 1) + sint i"
    using assms n1 by (intro uint_plus_scast) auto
  moreover have "uint n + 1 + sint i < 2 ^ 31"
    using assms sint32_range [of i] by linarith
  ultimately show ?thesis
    using sint_ucast_64_32 [of "n + 1 + scast i"] n1 by simp
qed

lemma check_passes_nonneg:
  fixes i :: "32 word"
  assumes "0 \<le> sint i" "sint i < uint (length' sa)"
  shows "checkIndexOrSize sa h i = (Inr (), h)"
  unfolding checkIndexOrSize_def
  using check_cond_in_range_nonneg [OF assms] by (rule if_not_P)

lemma check_passes_neg:
  fixes i :: "32 word"
  assumes "sint i < 0" "- uint (length' sa) \<le> sint i"
  shows "checkIndexOrSize sa h i = (Inr (), h)"
  unfolding checkIndexOrSize_def
  using check_cond_in_range_neg [OF assms] by (rule if_not_P)

lemma check_passes_empty:
  assumes "length' sa = 0"
  shows "checkIndexOrSize sa h i = (Inr (), h)"
  using assms by (simp add: checkIndexOrSize_def)

lemma check_fails:
  fixes i :: "32 word"
  assumes "length' sa \<noteq> 0"
    and "uint (length' sa) \<le> sint i \<or> sint i < - uint (length' sa)"
  shows "checkIndexOrSize sa h i =
           (case delete_array (m_data sa) h of
              Inl e \<Rightarrow> (Inl e, h)
            | Inr h1 \<Rightarrow> (Inl IndexOutOfBounds, h1))"
  unfolding checkIndexOrSize_def
  using check_cond_out_of_range [OF assms] by (rule if_P)

lemma subscript_nonneg:
  fixes i :: "32 word"
  assumes "0 \<le> sint i" "sint i < uint (length' sa)"
  shows "subscript sa h i = (Inr (ptr_add (m_data sa) (sint i)), h)"
proof -
  have "\<not> i <s 0" using assms by (simp add: word_sless_alt)
  then show ?thesis
    by (simp add: subscript_def check_passes_nonneg [OF assms])
qed

lemma subscript_neg:
  fixes i :: "32 word"
  assumes "sint i < 0" "- uint (length' sa) \<le> sint i" "uint (length' sa) + sint i < 2 ^ 31"
  shows "subscript sa h i = (Inr (ptr_add (m_data sa) (uint (length' sa) + sint i)), h)"
proof -
  have "i <s 0" using assms by (simp add: word_sless_alt)
  then show ?thesis
    using norm_index_neg [OF assms]
    by (simp add: subscript_def check_passes_neg [OF assms(1,2)])
qed

section \<open>Accesses to a live block\<close>

lemma load_range_live:
  assumes "b < length h" "h ! b = Array cs" "0 \<le> off" "nat off + n \<le> length cs"
  shows "load_range (Ptr b off) n h = Inr (take n (drop (nat off) cs))"
  using assms by (simp add: load_range_def)

lemma store_range_live:
  assumes "b < length h" "h ! b = Array cs" "0 \<le> off" "nat off + length vs \<le> length cs"
  shows "store_range (Ptr b off) vs h =
           Inr (h[b := Array (take (nat off) cs @ vs @ drop (nat off + length vs) cs)])"
proof (cases "vs = []")
  case True
  with assms show ?thesis
    by (simp add: store_range_def) (metis list_update_id)
next
  case False
  with assms show ?thesis by (simp add: store_range_def)
qed

lemma load_live:
  assumes "b < length h" "h ! b = Array cs" "0 \<le> off" "nat off < length cs"
  shows "load (Ptr b off) h = Inr (cs ! nat off)"
proof -
  have "load_range (Ptr b off) 1 h = Inr (take 1 (drop (nat off) cs))"
    using assms by (intro load_range_live) auto
  moreover have "hd (take 1 (drop (nat off) cs)) = cs ! nat off"
    using assms by (simp add: hd_drop_conv_nth)
  ultimately show ?thesis by (simp add: load_def)
qed

lemma store_live:
  assumes "b < length h" "h ! b = Array cs" "0 \<le> off" "nat off < length cs"
  shows "store (Ptr b off) v h = Inr (h[b := Array (cs[nat off := v])])"
proof -
  have "store_range (Ptr b off) [v] h =
          Inr (h[b := Array (take (nat off) cs @ [v] @ drop (nat off + length [v]) cs)])"
    using assms by (intro store_range_live) auto
  moreover have "take (nat off) cs @ [v] @ drop (nat off + length [v]) cs = cs[nat off := v]"
    using assms by (simp add: upd_conv_take_nth_drop)
  ultimately show ?thesis by (simp add: store_def)
qed

lemma delete_array_live:
  assumes "b < length h" "h ! b = Array cs"
  shows "delete_array (Ptr b 0) h = Inr (h[b := Freed])"
  using assms by (simp add: delete_array_def)

lemma sint_word_of_int_32:
  assumes "- (2 ^ 31) \<le> k" "k < 2 ^ 31"
  shows "sint (word_of_int k :: 32 word) = k"
  using assms by (simp add: sint_sbintrunc' signed_take_bit_int_eq_self)

section \<open>Element access\<close>

text \<open>
  C9.  On a container that owns a live buffer, \<open>operator[]\<close> with a valid
  non-negative index \<open>i < length\<close> refers to the cell at forward position \<open>i\<close>, reading
  through it returns that cell, and the store is left as it was.  With a valid negative
  index \<open>j\<close> (\<open>-length \<le> j < 0\<close>, and \<open>length + j\<close> representable as an \<open>int\<close>) the
  read returns the same as the read at index \<open>length + j\<close>.
\<close>

theorem subscript_valid_index:
  assumes "live_buffer sa h b cs"
  shows "(0 \<le> sint i \<and> sint i < uint (length' sa) \<longrightarrow>
            subscript sa h i = (Inr (Ptr b (sint i)), h) \<and>
            get sa h i = (Inr (cs ! nat (sint i)), h)) \<and>
         (sint j < 0 \<and> - uint (length' sa) \<le> sint j \<and> uint (length' sa) + sint j < 2 ^ 31 \<longrightarrow>
            get sa h j = get sa h (word_of_int (uint (length' sa) + sint j)) \<and>
            get sa h j = (Inr (cs ! nat (uint (length' sa) + sint j)), h))"
proof (intro conjI impI)
  from assms have live: "m_data sa = Ptr b 0" "b < length h" "h ! b = Array cs"
    and room: "unat (length' sa) \<le> length cs"
    by (simp_all add: live_buffer_def)
  have len: "uint (length' sa) = int (unat (length' sa))"
    by simp
  have get_at: "get sa h k = (Inr (cs ! nat (sint k)), h)"
    and sub_at: "subscript sa h k = (Inr (Ptr b (sint k)), h)"
    if "0 \<le> sint k" "sint k < uint (length' sa)" for k :: "32 word"
  proof -
    show sub: "subscript sa h k = (Inr (Ptr b (sint k)), h)"
      using subscript_nonneg [OF that, of h] live by simp
    have "nat (sint k) < length cs"
      using that room len by linarith
    then have "load (Ptr b (sint k)) h = Inr (cs ! nat (sint k))"
      using live that by (intro load_live) auto
    with sub show "get sa h k = (Inr (cs ! nat (sint k)), h)"
      by (simp add: get_def)
  qed
  {
    assume "0 \<le> sint i \<and> sint i < uint (length' sa)"
    then show "subscript sa h i = (Inr (Ptr b (sint i)), h)"
      and "get sa h i = (Inr (cs ! nat (sint i)), h)"
      using sub_at [of i] get_at [of i] by simp_all
  }
  assume neg: "sint j < 0 \<and> - uint (length' sa) \<le> sint j \<and> uint (length' sa) + sint j < 2 ^ 31"
  let ?k = "uint (length' sa) + sint j"
  have sub: "subscript sa h j = (Inr (Ptr b ?k), h)"
    using subscript_neg [of j sa h] neg live by simp
  have "nat ?k < length cs"
    using neg room len by linarith
  then have "load (Ptr b ?k) h = Inr (cs ! nat ?k)"
    using live neg by (intro load_live) auto
  with sub show res: "get sa h j = (Inr (cs ! nat ?k), h)"
    by (simp add: get_def)
  have "sint (word_of_int ?k :: 32 word) = ?k"
    using neg by (intro sint_word_of_int_32) auto
  then have "get sa h (word_of_int ?k) = (Inr (cs ! nat ?k), h)"
    using get_at [of "word_of_int ?k"] neg by simp
  with res show "get sa h j = get sa h (word_of_int ?k)"
    by simp
qed

theorem subscript_valid_index_witness:
  "live_buffer array_123 store_123 0 [Value 1, Value 2, Value 3] \<and>
   subscript array_123 store_123 1 = (Inr (Ptr 0 1), store_123) \<and>
   get array_123 store_123 1 = (Inr (Value 2), store_123) \<and>
   get array_123 store_123 (- 1) = get array_123 store_123 2 \<and>
   get array_123 store_123 (- 1) = (Inr (Value 3), store_123)"
proof -
  have live: "live_buffer array_123 store_123 0 [Value 1, Value 2, Value 3]"
    by (simp add: live_buffer_def SmartArray_raw_def)
  show ?thesis
    using live subscript_valid_index [OF live, of 1 "- 1"]
    by (auto simp add: SmartArray_raw_def)
qed

section \<open>The failing branch of the bounds check\<close>

text \<open>
  C1, amended.  On a non-empty container that owns a live buffer, every index \<open>i\<close> with
  \<open>i \<ge> length\<close> or \<open>i < -length\<close> makes \<open>operator[]\<close>, \<open>put\<close>, \<open>pop\<close> and \<open>to_arr\<close>
  fail with \<open>IndexOutOfBounds\<close>.  The fields \<open>m_data\<close> and \<open>length\<close> keep their
  values, but the buffer has been released by the \<open>delete[] m_data\<close> of the failing
  branch, so the elements can no longer be read.
\<close>

theorem out_of_range_access_releases_buffer:
  assumes "live_buffer sa h b cs"
    and "length' sa \<noteq> 0"
    and "uint (length' sa) \<le> sint i \<or> sint i < - uint (length' sa)"
  shows "subscript sa h i = (Inl IndexOutOfBounds, h[b := Freed]) \<and>
         get sa h i = (Inl IndexOutOfBounds, h[b := Freed]) \<and>
         put sa h v i = (Inl IndexOutOfBounds, sa, h[b := Freed]) \<and>
         pop sa h i = (Inl IndexOutOfBounds, sa, h[b := Freed]) \<and>
         to_arr sa h i = (Inl IndexOutOfBounds, h[b := Freed]) \<and>
         range_for sa (h[b := Freed]) = Inl UseAfterFree"
proof -
  from assms(1) have live: "m_data sa = Ptr b 0" "b < length h" "h ! b = Array cs"
    by (simp_all add: live_buffer_def)
  have "delete_array (m_data sa) h = Inr (h[b := Freed])"
    using live by (simp add: delete_array_live)
  then have chk: "checkIndexOrSize sa h i = (Inl IndexOutOfBounds, h[b := Freed])"
    using check_fails [OF assms(2,3), of h] by simp
  have "unat (length' sa) \<noteq> 0"
    using assms(2) by (simp add: unat_eq_0)
  then have "range_for sa (h[b := Freed]) = Inl UseAfterFree"
    using live by (simp add: range_for_def load_range_def)
  with chk show ?thesis
    by (simp add: subscript_def get_def put_def pop_def to_arr_def)
qed

theorem out_of_range_access_releases_buffer_witness:
  "live_buffer array_123 store_123 0 [Value 1, Value 2, Value 3] \<and>
   subscript array_123 store_123 3 = (Inl IndexOutOfBounds, [Freed]) \<and>
   get array_123 store_123 3 = (Inl IndexOutOfBounds, [Freed]) \<and>
   put array_123 store_123 9 3 = (Inl IndexOutOfBounds, array_123, [Freed]) \<and>
   pop array_123 store_123 3 = (Inl IndexOutOfBounds, array_123, [Freed]) \<and>
   to_arr array_123 store_123 3 = (Inl IndexOutOfBounds, [Freed]) \<and>
   range_for array_123 ([Freed] :: int heap) = Inl UseAfterFree"
proof -
  have live: "live_buffer array_123 store_123 0 [Value 1, Value 2, Value 3]"
    by (simp add: live_buffer_def SmartArray_raw_def)
  have nonempty: "length' array_123 \<noteq> 0"
    by (simp add: SmartArray_raw_def)
  have out: "uint (length' array_123) \<le> sint (3 :: 32 word) \<or>
             sint (3 :: 32 word) < - uint (length' array_123)"
    by (simp add: SmartArray_raw_def)
  show ?thesis
    using live out_of_range_access_releases_buffer [OF live nonempty out, of 9]
    by simp
qed

text \<open>
  C1 as stated fails twice.  After \<open>a[3]\<close> on \<open>{1, 2, 3}\<close> the traversal of the
  container no longer yields what it did before the call, and \<open>a[0]\<close> on the empty
  container does not fail with \<open>IndexOutOfBounds\<close>: for \<open>length = 0\<close> the test
  \<open>index < -length\<close> compares against \<open>0\<close> and is never true.
\<close>

theorem out_of_range_access_counterexample:
  "range_for array_123 (snd (subscript array_123 store_123 3)) \<noteq> range_for array_123 store_123 \<and>
   fst (subscript SmartArray_default ([] :: int heap) 0) \<noteq> Inl IndexOutOfBounds"
  by (simp add: subscript_def checkIndexOrSize_def SmartArray_raw_def SmartArray_default_def
      delete_array_def range_for_def load_range_def)

section \<open>Reallocation\<close>

lemma update_last_block: "length xs = n \<Longrightarrow> (xs @ [x])[n := y] = xs @ [y]"
  by (auto simp: list_update_append)

lemma std_copy_to_fresh:
  assumes "b < length h" "h ! b = Array cs" "n \<le> length cs" "length ns = n"
  shows "std_copy (Ptr b 0) n (Ptr (length h) 0) (h @ [Array ns]) = Inr (h @ [Array (take n cs)])"
proof -
  let ?h1 = "h @ [Array ns]"
  have "load_range (Ptr b 0) n ?h1 = Inr (take n (drop (nat 0) cs))"
    using assms by (intro load_range_live) (auto simp: nth_append)
  then have ld: "load_range (Ptr b 0) n ?h1 = Inr (take n cs)"
    by simp
  have "store_range (Ptr (length h) 0) (take n cs) ?h1 =
          Inr (?h1[length h := Array (take (nat 0) ns @ take n cs @
                                      drop (nat 0 + length (take n cs)) ns)])"
    using assms by (intro store_range_live) auto
  then have "store_range (Ptr (length h) 0) (take n cs) ?h1 = Inr (h @ [Array (take n cs)])"
    using assms by simp
  with ld show ?thesis
    by (simp add: std_copy_def)
qed

lemma resize_within_buffer:
  assumes "m_data sa = Ptr b 0" "b < length h" "h ! b = Array cs"
    and "new_sz \<noteq> 0" "unat new_sz \<le> length cs"
  shows "resize sa h new_sz =
           (Inr (), sa\<lparr>length' := new_sz, m_data := Ptr (length h) 0\<rparr>,
            h[b := Freed] @ [Array (take (unat new_sz) cs)])"
proof -
  let ?n = "unat new_sz"
  have cp: "std_copy (Ptr b 0) ?n (Ptr (length h) 0) (h @ [Array (replicate ?n Indeterminate)]) =
              Inr (h @ [Array (take ?n cs)])"
    using assms by (intro std_copy_to_fresh) auto
  have "delete_array (Ptr b 0) (h @ [Array (take ?n cs)]) = Inr ((h @ [Array (take ?n cs)])[b := Freed])"
    using assms by (intro delete_array_live [where cs = cs]) (auto simp: nth_append)
  then have "delete_array (Ptr b 0) (h @ [Array (take ?n cs)]) = Inr (h[b := Freed] @ [Array (take ?n cs)])"
    using assms by (simp add: list_update_append1)
  with cp assms(1,4) show ?thesis
    by (simp add: resize_def new_array_def)
qed

lemma resize_beyond_buffer:
  assumes "m_data sa = Ptr b 0" "b < length h" "h ! b = Array cs"
    and "length cs < unat new_sz"
  shows "resize sa h new_sz =
           (Inl OutOfBoundsRead, sa, h @ [Array (replicate (unat new_sz) Indeterminate)])"
proof -
  have "new_sz \<noteq> 0" using assms(4) by auto
  moreover have "load_range (Ptr b 0) (unat new_sz) (h @ [Array (replicate (unat new_sz) Indeterminate)])
      = Inl OutOfBoundsRead"
    using assms by (simp add: load_range_def nth_append)
  ultimately show ?thesis
    using assms(1) by (simp add: resize_def new_array_def std_copy_def)
qed

lemma unat_grow_size:
  assumes "uint n < 2 ^ 31"
  shows "unat (grow_size n) = (9 * unat n + 7) div 8"
proof -
  have "int (unat n) < 2 ^ 31"
    using assms by simp
  then have "unat n < 2 ^ 31"
    by (simp only: of_nat_less_numeral_power_cancel_iff)
  then have "(9 * unat n + 7) div 8 < 2 ^ 64"
    by simp
  then show ?thesis
    by (simp add: grow_size_def unat_of_nat)
qed

lemma grow_size_greater:
  assumes "uint n < 2 ^ 31" "n \<noteq> 0"
  shows "unat n < unat (grow_size n)"
proof -
  have "0 < unat n" using assms(2) by (simp add: unat_gt_0)
  then show ?thesis
    using unat_grow_size [OF assms(1)] by simp
qed

text \<open>
  C5.  \<open>resize(new_sz)\<close> is claimed to copy \<open>min(old_length, new_sz)\<close> elements and never
  to read past the old buffer.  The code runs \<open>std::copy(m_data, m_data + new_sz, arr)\<close>:
  on the one-element container \<open>{7}\<close>, \<open>resize(2)\<close> reads the cell at offset 1 of a
  one-cell buffer.
\<close>

theorem resize_reads_past_old_buffer:
  "resize (SmartArray_raw (Ptr 0 0) 1) [Array [Value (7::int)]] 2 =
     (Inl OutOfBoundsRead, SmartArray_raw (Ptr 0 0) 1,
      [Array [Value 7], Array [Indeterminate, Indeterminate]])"
  by code_simp

section \<open>Insertion\<close>

text \<open>
  C2.  \<open>append\<close> is claimed to succeed on every container, the empty one included.
  On the default-constructed container \<open>std::ceil(0 * 1.125)\<close> is \<open>0\<close>, \<open>resize(0)\<close>
  only calls \<open>erase()\<close>, and \<open>m_data[0] = input\<close> then writes through the null pointer.
\<close>

theorem append_on_empty_container:
  "append SmartArray_default ([] :: int heap) 5 = (Inl NullDeref, SmartArray_default, [])"
  by code_simp

text \<open>
  The same holds in every store and for every value; on \<open>{1, 2, 3}\<close> held in a buffer
  of exactly three cells the \<open>resize(4)\<close> of \<open>append\<close> reads past the buffer; and from
  nine elements on, \<open>ceil(length * 1.125)\<close> exceeds \<open>length + 1\<close>.
\<close>

lemma append_on_any_empty_container:
  "append SmartArray_default h v = (Inl NullDeref, SmartArray_default, h)"
  by (simp add: append_def put_def checkIndexOrSize_def SmartArray_default_def resize_def
      grow_size_def erase_def store_def store_range_def)

lemma append_exact_buffer:
  "append array_123 store_123 4 =
     (Inl OutOfBoundsRead, array_123, store_123 @ [Array (replicate 4 Indeterminate)])"
  by code_simp

lemma append_grows_by_two:
  "append (SmartArray_raw (Ptr 0 0) 9) [Array (replicate 11 (Value (0::int)))] 5 =
     (Inr (), SmartArray_raw (Ptr 1 0) 11,
      [Freed, Array ((replicate 11 (Value 0))[9 := Value 5])])"
  by code_simp

text \<open>
  C6, amended.  On a container whose buffer has room for \<open>ceil(length * 1.125)\<close> cells
  (so that the copy inside \<open>resize\<close> stays within it) and whose length fits an \<open>int\<close>,
  \<open>put(v, i)\<close> with an in-range negative index \<open>i\<close> succeeds and writes \<open>v\<close> into slot
  \<open>length + 1 + i\<close> of the new buffer, \<open>length\<close> being the length before the growth.
  That is one slot after \<open>length + i\<close>, the slot \<open>operator[]\<close> resolves \<open>i\<close> to before
  the call.
\<close>

theorem put_negative_index:
  assumes "live_buffer sa h b cs"
    and "unat (grow_size (length' sa)) \<le> length cs"
    and "uint (length' sa) < 2 ^ 31"
    and "sint i < 0" and "- uint (length' sa) \<le> sint i"
  shows "put sa h v i =
           (Inr (), sa\<lparr>length' := grow_size (length' sa), m_data := Ptr (length h) 0\<rparr>,
            h[b := Freed] @
              [Array ((take (unat (grow_size (length' sa))) cs)
                        [nat (uint (length' sa) + 1 + sint i) := Value v])]) \<and>
         subscript sa h i = (Inr (Ptr b (uint (length' sa) + sint i)), h)"
proof
  from assms(1) have live: "m_data sa = Ptr b 0" "b < length h" "h ! b = Array cs"
    by (simp_all add: live_buffer_def)
  let ?n = "length' sa" and ?N = "grow_size (length' sa)"
  let ?k = "uint ?n + 1 + sint i"
  let ?new = "take (unat ?N) cs"
  from assms(4,5) have nonempty: "?n \<noteq> 0" by auto
  have neg: "i <s 0" using assms(4) by (simp add: word_sless_alt)
  have chk: "checkIndexOrSize sa h i = (Inr (), h)"
    using assms(4,5) by (rule check_passes_neg)
  have grow: "unat ?n < unat ?N"
    using assms(3) nonempty by (rule grow_size_greater)
  then have "?N \<noteq> 0" by auto
  then have rs: "resize sa h ?N =
      (Inr (), sa\<lparr>length' := ?N, m_data := Ptr (length h) 0\<rparr>, h[b := Freed] @ [Array ?new])"
    using live assms(2) by (intro resize_within_buffer) auto
  have idx: "sint (ucast (?n + 1 + scast i) :: 32 word) = ?k"
    using assms(3-5) by (intro norm_index_put_neg) auto
  have len: "uint ?n = int (unat ?n)" by simp
  have "length ?new = unat ?N"
    using assms(2) by simp
  then have slot: "0 \<le> ?k" "nat ?k < length ?new"
    using assms(4,5) grow len by linarith+
  have "store (Ptr (length h) ?k) (Value v) (h[b := Freed] @ [Array ?new]) =
          Inr ((h[b := Freed] @ [Array ?new])[length h := Array (?new[nat ?k := Value v])])"
    using slot by (intro store_live) (auto simp: nth_append)
  then have st: "store (Ptr (length h) ?k) (Value v) (h[b := Freed] @ [Array ?new]) =
          Inr (h[b := Freed] @ [Array (?new[nat ?k := Value v])])"
    by (simp add: update_last_block)
  show "put sa h v i =
           (Inr (), sa\<lparr>length' := ?N, m_data := Ptr (length h) 0\<rparr>,
            h[b := Freed] @ [Array (?new[nat ?k := Value v])])"
    using chk rs neg idx st by (simp add: put_def)
  show "subscript sa h i = (Inr (Ptr b (uint ?n + sint i)), h)"
    using subscript_neg [of i sa h] assms(3-5) live by simp
qed

theorem put_negative_index_witness:
  "live_buffer array_123 [Array [Value 1, Value 2, Value 3, Value (0::int)]] 0
      [Value 1, Value 2, Value 3, Value 0] \<and>
   put array_123 [Array [Value 1, Value 2, Value 3, Value (0::int)]] 9 (- 1) =
     (Inr (), SmartArray_raw (Ptr 1 0) 4, [Freed, Array [Value 1, Value 2, Value 3, Value 9]]) \<and>
   subscript array_123 [Array [Value 1, Value 2, Value 3, Value (0::int)]] (- 1) =
     (Inr (Ptr 0 2), [Array [Value 1, Value 2, Value 3, Value 0]])"
proof -
  let ?h = "[Array [Value 1, Value 2, Value 3, Value (0::int)]]"
  have g: "grow_size 3 = 4"
    by (simp add: grow_size_def)
  have live: "live_buffer array_123 ?h 0 [Value 1, Value 2, Value 3, Value 0]"
    by (simp add: live_buffer_def SmartArray_raw_def)
  have room: "unat (grow_size (length' array_123)) \<le> length [Value 1, Value 2, Value 3, Value (0::int)]"
    by (simp add: SmartArray_raw_def g)
  have small: "uint (length' array_123) < 2 ^ 31"
    by (simp add: SmartArray_raw_def)
  have neg: "sint (- 1 :: 32 word) < 0"
    by simp
  have low: "- uint (length' array_123) \<le> sint (- 1 :: 32 word)"
    by (simp add: SmartArray_raw_def)
  show ?thesis
    using live put_negative_index [OF live room small neg low, of 9]
    by (simp add: SmartArray_raw_def g)
qed

text \<open>
  C6 as stated fails: on \<open>{1, 2, 3}\<close> in a four-cell buffer, \<open>a[-1]\<close> refers to slot 2,
  while \<open>put(9, -1)\<close> leaves slot 2 alone and writes slot 3.
\<close>

theorem put_negative_index_counterexample:
  "fst (subscript array_123 [Array [Value 1, Value 2, Value 3, Value (0::int)]] (- 1)) =
     Inr (Ptr 0 2) \<and>
   put array_123 [Array [Value 1, Value 2, Value 3, Value (0::int)]] 9 (- 1) =
     (Inr (), SmartArray_raw (Ptr 1 0) 4, [Freed, Array [Value 1, Value 2, Value 3, Value 9]]) \<and>
   load (Ptr 1 2) [Freed, Array [Value 1, Value 2, Value 3, Value (9::int)]] \<noteq> Inr (Value 9) \<and>
   load (Ptr 1 3) [Freed, Array [Value 1, Value 2, Value 3, Value (9::int)]] = Inr (Value 9)"
  by code_simp

section \<open>Removal\<close>

text \<open>
  C8.  \<open>pop()\<close> on a non-empty container is claimed to shrink it by one element.  The
  code first runs \<open>delete (m_data + index)\<close> with \<open>index = length + 1 + (-1) = length\<close>:
  a scalar \<open>delete\<close> of a pointer one past the end of a \<open>new[]\<close> array, before
  \<open>resize(length - 1)\<close> is reached.
\<close>

theorem pop_last_element:
  "pop array_123 store_123 (- 1) = (Inl InvalidDelete, array_123, store_123)"
  by code_simp

text \<open>
  The same on every non-empty container that owns a live buffer: \<open>m_data + index\<close> is
  never the null pointer there.
\<close>

lemma pop_live_buffer:
  assumes "live_buffer sa h b cs" "length' sa \<noteq> 0"
  shows "pop sa h (- 1) = (Inl InvalidDelete, sa, h)"
proof -
  from assms(1) have ptr: "m_data sa = Ptr b 0"
    by (simp add: live_buffer_def)
  have "0 < uint (length' sa)"
    using assms(2) by (simp add: word_greater_zero_iff [symmetric] word_less_def)
  then have "checkIndexOrSize sa h (- 1) = (Inr (), h)"
    by (intro check_passes_neg) simp_all
  then show ?thesis
    using ptr by (simp add: pop_def delete_scalar_def)
qed

section \<open>Conversion to and from plain arrays\<close>

text \<open>
  C3.  The round trip needs \<open>to_arr\<close> to hand out all \<open>length\<close> elements.  The size goes
  through \<open>checkIndexOrSize\<close>, which rejects \<open>new_sz = length\<close> like an index: on
  \<open>{1, 2, 3}\<close>, \<open>to_arr(3)\<close> throws and the buffer is released.
\<close>

theorem to_arr_full_length:
  "to_arr array_123 store_123 3 = (Inl IndexOutOfBounds, [Freed])"
  by code_simp

text \<open>The same on every non-empty container that owns a live buffer.\<close>

lemma to_arr_full_length_live_buffer:
  assumes "live_buffer sa h b cs" "length' sa \<noteq> 0" "uint (length' sa) < 2 ^ 31"
  shows "to_arr sa h (word_of_int (uint (length' sa))) = (Inl IndexOutOfBounds, h[b := Freed])"
proof -
  let ?i = "word_of_int (uint (length' sa)) :: 32 word"
  from assms(1) have live: "m_data sa = Ptr b 0" "b < length h" "h ! b = Array cs"
    by (simp_all add: live_buffer_def)
  have "- (2 ^ 31) \<le> (0::int)"
    by simp
  also have "0 \<le> uint (length' sa)"
    by simp
  finally have "sint ?i = uint (length' sa)"
    using assms(3) by (rule sint_word_of_int_32)
  then have "uint (length' sa) \<le> sint ?i \<or> sint ?i < - uint (length' sa)"
    by simp
  with assms(2) have "checkIndexOrSize sa h ?i =
      (case delete_array (m_data sa) h of
         Inl e \<Rightarrow> (Inl e, h)
       | Inr h1 \<Rightarrow> (Inl IndexOutOfBounds, h1))"
    by (rule check_fails)
  moreover have "delete_array (m_data sa) h = Inr (h[b := Freed])"
    using live by (simp add: delete_array_live)
  ultimately show ?thesis
    by (simp add: to_arr_def)
qed

text \<open>
  The default \<open>to_arr()\<close> copies \<open>length - 1\<close> elements, and \<open>from_arr\<close> on a
  default-constructed container reads \<open>arr_len\<close> cells through the null \<open>m_data\<close>
  inside \<open>resize\<close>.
\<close>

lemma to_arr_default_size:
  "to_arr array_123 store_123 (- 1) = (Inr (Ptr 1 0), store_123 @ [Array [Value 1, Value 2]])"
  by code_simp

lemma from_arr_on_fresh_container:
  "from_arr SmartArray_default (store_123 @ [Array [Value 1, Value 2]]) (Ptr 1 0) 2 =
     (Inl NullDeref, SmartArray_default,
      store_123 @ [Array [Value 1, Value 2], Array [Indeterminate, Indeterminate]])"
  by code_simp

section \<open>Concatenation\<close>

text \<open>
  C4.  \<open>a + b\<close> is claimed to append all of \<open>b\<close> to \<open>a\<close>.  The code copies
  \<open>old_length\<close> elements of \<open>b\<close>, not \<open>b.length\<close>: with \<open>a\<close> of length 2 (in a buffer
  with room for five cells) and \<open>b = {10, 20, 30}\<close> the last slot of the result never
  receives 30.  With \<open>a = {1, 2}\<close> in a buffer of exactly two cells, the \<open>resize(5)\<close>
  reads past that buffer first.
\<close>

theorem operator_plus_copies_old_length:
  "operator_plus (SmartArray_raw (Ptr 0 0) 2) (SmartArray_raw (Ptr 1 0) 3)
       [Array [Value 1, Value 2, Value 0, Value 0, Value 0],
        Array [Value 10, Value 20, Value (30::int)]] =
     (Inr (), SmartArray_raw (Ptr 2 0) 5,
      [Freed, Array [Value 10, Value 20, Value 30],
       Array [Value 1, Value 2, Value 10, Value 20, Value 0]]) \<and>
   operator_plus (SmartArray_raw (Ptr 0 0) 2) (SmartArray_raw (Ptr 1 0) 3)
       [Array [Value 1, Value 2], Array [Value 10, Value 20, Value (30::int)]] =
     (Inl OutOfBoundsRead, SmartArray_raw (Ptr 0 0) 2,
      [Array [Value 1, Value 2], Array [Value 10, Value 20, Value 30],
       Array (replicate 5 Indeterminate)])"
  by code_simp

text \<open>The scenario of the specification, with buffers of exactly three cells each.\<close>

lemma operator_plus_exact_buffers:
  "operator_plus array_123 (SmartArray_raw (Ptr 1 0) 3)
       (store_123 @ [Array [Value 10, Value 20, Value 30]]) =
     (Inl OutOfBoundsRead, array_123,
      store_123 @ [Array [Value 10, Value 20, Value 30], Array (replicate 6 Indeterminate)])"
  by code_simp

section \<open>The reversed view\<close>

declare reverse_loop.simps [simp del]

lemma uint_neg_succ_64:
  fixes i :: "64 word"
  assumes "uint i < 2 ^ 31"
  shows "uint (- i - 1) = 2 ^ 64 - 1 - uint i"
proof -
  have s: "uint (i + 1) = uint i + 1"
    using assms by (intro uint_succ_64) auto
  have "i + 1 \<noteq> 0"
  proof
    assume "i + 1 = 0"
    then have "uint (i + 1) = 0" by simp
    with s uint64_range [of i] show False by linarith
  qed
  then have m: "uint (- (i + 1)) = 2 ^ 64 - uint (i + 1)"
    by (simp only: uint_minus_64 if_False)
  have "uint (- i - 1) = uint (- (i + 1))"
    by simp
  also note m
  also have "2 ^ 64 - uint (i + 1) = 2 ^ 64 - 1 - uint i"
    using s by linarith
  finally show ?thesis .
qed

lemma sint_narrow_loop_index:
  fixes i :: "64 word"
  assumes "uint i < 2 ^ 31"
  shows "sint (ucast i :: 32 word) = uint i"
    and "sint (ucast (- i - 1) :: 32 word) = - uint i - 1"
proof -
  show "sint (ucast i :: 32 word) = uint i"
    using assms by (rule sint_ucast_64_32)
  have u: "uint (- i - 1) = 2 ^ 64 - 1 - uint i"
    using assms by (rule uint_neg_succ_64)
  then have "2 ^ 64 - 2 ^ 31 \<le> uint (- i - 1)"
    using assms by simp
  then have "sint (ucast (- i - 1) :: 32 word) = uint (- i - 1) - 2 ^ 64"
    by (rule sint_ucast_64_32_neg)
  with u show "sint (ucast (- i - 1) :: 32 word) = - uint i - 1"
    by simp
qed

lemma reverse_loop_done:
  assumes "\<not> i < length' it"
  shows "reverse_loop it buffer i h = (Inr (), h)"
  using assms by (simp add: reverse_loop.simps [of it buffer i h])

lemma reverse_loop_step:
  assumes ptrs: "m_data it = Ptr ib 0" "m_data buffer = Ptr bb 0"
    and len: "length' buffer = length' it" "uint (length' it) \<le> 2 ^ 31"
    and blocks: "ib < length h" "bb < length h" "h ! ib = Array xs" "h ! bb = Array ys"
    and sizes: "length xs = unat (length' it)" "length ys = unat (length' it)"
    and i: "i < length' it"
  shows "reverse_loop it buffer i h =
           reverse_loop it buffer (i + 1)
             (h[bb := Array (ys[unat (length' it) - 1 - unat i := xs ! unat i])])"
proof -
  let ?n = "length' it"
  have ui: "uint i < uint ?n"
    using i by (simp add: word_less_def)
  with len have small: "uint i < 2 ^ 31"
    by linarith
  have nat_i: "uint i = int (unat i)" and nat_n: "uint ?n = int (unat ?n)"
    by simp_all
  have k: "unat i < unat ?n"
    using i by (simp add: word_less_nat_alt)
  note narrow = sint_narrow_loop_index [OF small]
  have "subscript it h (ucast i) = (Inr (ptr_add (m_data it) (sint (ucast i :: 32 word))), h)"
    using ui narrow(1) by (intro subscript_nonneg) auto
  then have src: "subscript it h (ucast i) = (Inr (Ptr ib (uint i)), h)"
    using ptrs narrow(1) by simp
  have "sint (ucast (- i - 1) :: 32 word) < 0"
    and "- uint (length' buffer) \<le> sint (ucast (- i - 1) :: 32 word)"
    and "uint (length' buffer) + sint (ucast (- i - 1) :: 32 word) < 2 ^ 31"
    unfolding len(1) using ui len(2) narrow(2) uint64_range [of i] by linarith+
  then have "subscript buffer h (ucast (- i - 1)) =
          (Inr (ptr_add (m_data buffer)
                  (uint (length' buffer) + sint (ucast (- i - 1) :: 32 word))), h)"
    by (rule subscript_neg)
  then have dst: "subscript buffer h (ucast (- i - 1)) = (Inr (Ptr bb (uint ?n - uint i - 1)), h)"
    using ptrs len narrow(2) by simp
  have ld: "load (Ptr ib (uint i)) h = Inr (xs ! unat i)"
    using blocks sizes k load_live [of ib h xs "uint i"] by simp
  have off: "nat (uint ?n - uint i - 1) = unat ?n - 1 - unat i"
    using nat_i nat_n k by linarith
  have "store (Ptr bb (uint ?n - uint i - 1)) (xs ! unat i) h =
          Inr (h[bb := Array (ys[nat (uint ?n - uint i - 1) := xs ! unat i])])"
    using blocks sizes ui k off by (intro store_live) auto
  then have st: "store (Ptr bb (uint ?n - uint i - 1)) (xs ! unat i) h =
          Inr (h[bb := Array (ys[unat ?n - 1 - unat i := xs ! unat i])])"
    by (simp only: off)
  show ?thesis
    using i src dst ld st by (simp add: reverse_loop.simps [of it buffer i h])
qed

lemma reverse_loop_result:
  assumes ptrs: "m_data it = Ptr ib 0" "m_data buffer = Ptr bb 0" "ib \<noteq> bb"
    and len: "length' buffer = length' it" "uint (length' it) \<le> 2 ^ 31"
    and blocks: "ib < length h" "bb < length h" "h ! ib = Array xs" "h ! bb = Array ys"
    and sizes: "length xs = unat (length' it)" "length ys = unat (length' it)"
    and i: "i \<le> length' it"
  shows "reverse_loop it buffer i h =
           (Inr (), h[bb := Array (rev (drop (unat i) xs) @
                                   drop (unat (length' it) - unat i) ys)])"
  using blocks sizes(2) i
proof (induction "unat (length' it) - unat i" arbitrary: i h ys)
  case 0
  then have "unat i = unat (length' it)"
    by (simp add: word_le_nat_alt)
  then have "\<not> i < length' it"
    by (simp add: word_less_nat_alt)
  then have "reverse_loop it buffer i h = (Inr (), h)"
    by (rule reverse_loop_done)
  moreover have "h[bb := Array ys] = h"
    using "0.prems" by (metis list_update_id)
  ultimately show ?case
    using \<open>unat i = unat (length' it)\<close> sizes by simp
next
  case (Suc m)
  let ?n = "unat (length' it)" and ?k = "unat i"
  let ?ys = "ys[?n - 1 - ?k := xs ! ?k]"
  let ?h = "h[bb := Array ?ys]"
  from Suc.hyps(2) have k: "?k < ?n"
    by linarith
  then have lt: "i < length' it"
    by (simp add: word_less_nat_alt)
  have "?n < 2 ^ 64"
    using unsigned_less [of "length' it"] by simp
  with k have "(?k + 1) mod 2 ^ 64 = ?k + 1"
    by (intro mod_less) linarith
  then have suc: "unat (i + 1) = ?k + 1"
    by (simp add: unat_word_ariths)
  have step: "reverse_loop it buffer i h = reverse_loop it buffer (i + 1) ?h"
    using ptrs(1,2) len Suc.prems(1-4) sizes(1) Suc.prems(5) lt
    by (rule reverse_loop_step)
  have "reverse_loop it buffer (i + 1) ?h =
          (Inr (), ?h[bb := Array (rev (drop (unat (i + 1)) xs) @
                                  drop (?n - unat (i + 1)) ?ys)])"
  proof (rule Suc.hyps(1))
    show "m = ?n - unat (i + 1)"
      using Suc.hyps(2) suc by linarith
    show "ib < length ?h" "bb < length ?h"
      using Suc.prems by simp_all
    show "?h ! ib = Array xs"
      using Suc.prems ptrs(3) by simp
    show "?h ! bb = Array ?ys"
      using Suc.prems by simp
    show "length ?ys = ?n"
      using Suc.prems by simp
    show "i + 1 \<le> length' it"
      using suc k by (simp add: word_le_nat_alt)
  qed
  moreover have "rev (drop (?k + 1) xs) @ drop (?n - (?k + 1)) ?ys =
                 rev (drop ?k xs) @ drop (?n - ?k) ys"
  proof -
    have "drop ?k xs = xs ! ?k # drop (?k + 1) xs"
      using k sizes(1) by (simp add: Cons_nth_drop_Suc)
    moreover have "drop (?n - (?k + 1)) ?ys = xs ! ?k # drop (?n - ?k) ys"
    proof -
      have "?n - 1 - ?k < length ys" "Suc (?n - 1 - ?k) = ?n - ?k" "?n - (?k + 1) = ?n - 1 - ?k"
        using k Suc.prems(5) by linarith+
      then show ?thesis
        by (metis Cons_nth_drop_Suc drop_update_cancel length_list_update lessI nth_list_update_eq)
    qed
    ultimately show ?thesis
      by simp
  qed
  ultimately show ?case
    using step suc by simp
qed

lemma load_range_length:
  assumes "load_range p n h = Inr xs"
  shows "length xs = n"
  using assms by (auto simp: load_range_def split: if_splits ptr.splits block.splits)

lemma load_range_append:
  assumes "load_range p n h = Inr xs"
  shows "load_range p n (h @ h') = Inr xs"
  using assms
  by (auto simp: load_range_def nth_append split: if_splits ptr.splits block.splits)

lemma range_for_live:
  assumes "live_buffer sa h b cs"
  shows "range_for sa h = Inr (take (unat (length' sa)) cs)"
proof -
  from assms have live: "m_data sa = Ptr b 0" "b < length h" "h ! b = Array cs"
      "unat (length' sa) \<le> length cs"
    by (simp_all add: live_buffer_def)
  have "load_range (Ptr b 0) (unat (length' sa)) h = Inr (take (unat (length' sa)) (drop (nat 0) cs))"
    using live by (intro load_range_live) auto
  then show ?thesis
    using live(1) by (simp add: range_for_def)
qed

lemma SmartArray_copy_readable:
  assumes "range_for other h = Inr xs"
  shows "SmartArray_copy other h =
           (Inr \<lparr>m_data = Ptr (length h) 0, length' = length' other\<rparr>, h @ [Array xs])"
proof -
  let ?n = "unat (length' other)"
  let ?fresh = "replicate ?n Indeterminate"
  let ?h1 = "h @ [Array ?fresh]"
  from assms have ld: "load_range (m_data other) ?n h = Inr xs"
    by (simp add: range_for_def)
  then have len: "length xs = ?n"
    by (rule load_range_length)
  from ld have ld1: "load_range (m_data other) ?n ?h1 = Inr xs"
    by (rule load_range_append)
  have "store_range (Ptr (length h) 0) xs ?h1 =
          Inr (?h1[length h := Array (take (nat 0) ?fresh @ xs @
                                      drop (nat 0 + length xs) ?fresh)])"
    using len by (intro store_range_live) auto
  then have "store_range (Ptr (length h) 0) xs ?h1 = Inr (h @ [Array xs])"
    using len by simp
  with ld1 show ?thesis
    by (simp add: SmartArray_copy_def new_array_def std_copy_def)
qed

lemma reverse_result:
  assumes "m_data (iter view) = Ptr ib 0" "ib < length h" "h ! ib = Array xs"
    and "length xs = unat (length' (iter view))" "uint (length' (iter view)) \<le> 2 ^ 31"
  shows "reverse dv view h = (Inr (), h[ib := Array (rev xs)] @ [Freed])"
proof -
  let ?it = "iter view"
  let ?n = "unat (length' ?it)"
  let ?buffer = "\<lparr>m_data = Ptr (length h) 0, length' = length' ?it\<rparr>"
  let ?h1 = "h @ [Array (replicate ?n (Value dv))]"
  let ?h2 = "h @ [Array (rev xs)]"
  have "reverse_loop ?it ?buffer 0 ?h1 =
          (Inr (), ?h1[length h := Array (rev (drop (unat (0 :: 64 word)) xs) @
                                         drop (?n - unat (0 :: 64 word)) (replicate ?n (Value dv)))])"
    using assms by (intro reverse_loop_result [where ib = ib]) (auto simp: nth_append)
  then have loop: "reverse_loop ?it ?buffer 0 ?h1 = (Inr (), ?h2)"
    by simp
  have "load_range (Ptr (length h) 0) ?n ?h2 = Inr (take ?n (drop (nat 0) (rev xs)))"
    using assms by (intro load_range_live) auto
  then have ld: "load_range (Ptr (length h) 0) ?n ?h2 = Inr (rev xs)"
    using assms by simp
  have "store_range (Ptr ib 0) (rev xs) ?h2 =
          Inr (?h2[ib := Array (take (nat 0) xs @ rev xs @ drop (nat 0 + length (rev xs)) xs)])"
    using assms by (intro store_range_live) (auto simp: nth_append)
  then have st: "store_range (Ptr ib 0) (rev xs) ?h2 = Inr (h[ib := Array (rev xs)] @ [Array (rev xs)])"
    using assms by (simp add: list_update_append1)
  have cp: "std_copy (Ptr (length h) 0) ?n (Ptr ib 0) ?h2 = Inr (h[ib := Array (rev xs)] @ [Array (rev xs)])"
    using ld st by (simp add: std_copy_def)
  have del: "delete_array (Ptr (length h) 0) (h[ib := Array (rev xs)] @ [Array (rev xs)]) =
          Inr (h[ib := Array (rev xs)] @ [Freed])"
    by (simp add: delete_array_def nth_append update_last_block)
  show ?thesis
    using loop cp del assms(1)
    by (simp add: reverse_def SmartArray_sized_def new_array_def SmartArray_dtor_def)
qed

lemma SmartArrayReverse_ctor_result:
  assumes "range_for source h = Inr xs" "uint (length' source) \<le> 2 ^ 31"
  shows "SmartArrayReverse_ctor dv source h =
           (Inr \<lparr>m_data = NULL, length' = 0,
                 iter = \<lparr>m_data = Ptr (Suc (length h)) 0, length' = length' source\<rparr>\<rparr>,
            h @ [Freed, Array (rev xs), Freed])"
proof -
  let ?arr = "\<lparr>m_data = Ptr (length h) 0, length' = length' source\<rparr>"
  let ?it = "\<lparr>m_data = Ptr (Suc (length h)) 0, length' = length' source\<rparr>"
  let ?view = "\<lparr>m_data = NULL, length' = 0, iter = ?it\<rparr>"
  let ?h1 = "h @ [Array xs]"
  let ?h2 = "?h1 @ [Array xs]"
  from assms(1) have "load_range (m_data source) (unat (length' source)) h = Inr xs"
    by (simp add: range_for_def)
  then have len: "length xs = unat (length' source)"
    by (rule load_range_length)
  have c1: "SmartArray_copy source h = (Inr ?arr, ?h1)"
    using assms(1) by (rule SmartArray_copy_readable)
  have "live_buffer ?arr ?h1 (length h) xs"
    using len by (simp add: live_buffer_def)
  then have "range_for ?arr ?h1 = Inr (take (unat (length' ?arr)) xs)"
    by (rule range_for_live)
  then have "range_for ?arr ?h1 = Inr xs"
    using len by simp
  then have "SmartArray_copy ?arr ?h1 =
        (Inr \<lparr>m_data = Ptr (length ?h1) 0, length' = length' ?arr\<rparr>, ?h1 @ [Array xs])"
    by (rule SmartArray_copy_readable)
  then have c2: "SmartArray_copy ?arr ?h1 = (Inr ?it, ?h2)"
    by simp
  have "reverse dv ?view ?h2 = (Inr (), ?h2[Suc (length h) := Array (rev xs)] @ [Freed])"
    using len assms(2) by (intro reverse_result) (auto simp: nth_append)
  then have rv: "reverse dv ?view ?h2 = (Inr (), h @ [Array xs, Array (rev xs), Freed])"
    by (simp add: list_update_append)
  have del: "SmartArray_dtor ?arr (h @ [Array xs, Array (rev xs), Freed]) =
          Inr (h @ [Freed, Array (rev xs), Freed])"
    by (simp add: SmartArray_dtor_def delete_array_def nth_append list_update_append)
  show ?thesis
    using c1 c2 rv del by (simp add: SmartArrayReverse_ctor_def)
qed

text \<open>
  C7.  Let the traversal of the source container be defined and yield the elements
  \<open>xs\<close> (the empty container in the absent state included), with at most \<open>2^31\<close>
  elements, so that every loop index fits an \<open>int\<close>.  Then constructing a
  \<open>SmartArrayReverse\<close> over it succeeds; the view's \<open>iter\<close> has the length of the
  source; a traversal of the view yields \<open>xs\<close> reversed, position \<open>i\<close> holding the
  source's element at position \<open>length - 1 - i\<close>; and a traversal of the source after
  the construction still yields \<open>xs\<close>.
\<close>

theorem reversed_view_construction:
  assumes "range_for source h = Inr xs" and "uint (length' source) \<le> 2 ^ 31"
  shows "\<exists>view h'.
           SmartArrayReverse_ctor dv source h = (Inr view, h') \<and>
           length' (iter view) = length' source \<and>
           length xs = unat (length' source) \<and>
           range_for_reverse view h' = Inr (rev xs) \<and>
           (\<forall>i < length xs. rev xs ! i = xs ! (length xs - 1 - i)) \<and>
           range_for source h' = Inr xs"
proof -
  let ?it = "\<lparr>m_data = Ptr (Suc (length h)) 0, length' = length' source\<rparr>"
  let ?view = "\<lparr>m_data = NULL, length' = 0, iter = ?it\<rparr>"
  let ?h' = "h @ [Freed, Array (rev xs), Freed]"
  from assms(1) have ld: "load_range (m_data source) (unat (length' source)) h = Inr xs"
    by (simp add: range_for_def)
  then have len: "length xs = unat (length' source)"
    by (rule load_range_length)
  have ctor: "SmartArrayReverse_ctor dv source h = (Inr ?view, ?h')"
    using assms by (rule SmartArrayReverse_ctor_result)
  have "live_buffer ?it ?h' (Suc (length h)) (rev xs)"
    using len by (simp add: live_buffer_def nth_append)
  then have "range_for ?it ?h' = Inr (take (unat (length' ?it)) (rev xs))"
    by (rule range_for_live)
  then have view: "range_for_reverse ?view ?h' = Inr (rev xs)"
    using len by (simp add: range_for_reverse_def)
  have pointwise: "\<forall>i < length xs. rev xs ! i = xs ! (length xs - 1 - i)"
    by (simp add: rev_nth)
  have after: "range_for source ?h' = Inr xs"
    using ld by (simp add: range_for_def load_range_append)
  from ctor len view pointwise after show ?thesis
    by simp
qed

theorem reversed_view_construction_witness:
  "range_for array_123 store_123 = Inr [Value 1, Value 2, Value 3] \<and>
   uint (length' array_123) \<le> 2 ^ 31 \<and>
   (\<exists>view h'.
      SmartArrayReverse_ctor 0 array_123 store_123 = (Inr view, h') \<and>
      length' (iter view) = 3 \<and>
      range_for_reverse view h' = Inr [Value 3, Value 2, Value 1] \<and>
      [Value 3, Value 2, Value (1::int)] ! 0 = [Value 1, Value 2, Value 3] ! (3 - 1 - 0) \<and>
      range_for array_123 h' = Inr [Value 1, Value 2, Value 3])"
proof -
  have elems: "range_for array_123 store_123 = Inr [Value 1, Value 2, Value 3]"
    by code_simp
  have small: "uint (length' array_123) \<le> 2 ^ 31"
    by (simp add: SmartArray_raw_def)
  show ?thesis
    using elems small reversed_view_construction [OF elems small, of 0]
    by (simp add: SmartArray_raw_def) blast
qed

section \<open>Which blocks an operation can touch\<close>

declare from_arr_loop.simps [simp del]

lemma keeps_block_refl: "keeps_block vb h h"
  by (simp add: keeps_block_def)

lemma keeps_block_trans:
  "keeps_block vb h h1 \<Longrightarrow> keeps_block vb h1 h2 \<Longrightarrow> keeps_block vb h h2"
  by (simp add: keeps_block_def)

lemma points_into_ptr_add: "points_into (ptr_add p k) vb = points_into p vb"
  by (cases p) simp_all

lemma new_array_frame:
  assumes "new_array cs h = (p, h')" "vb < length h"
  shows "keeps_block vb h h' \<and> \<not> points_into p vb \<and> vb < length h'"
  using assms by (auto simp: new_array_def keeps_block_def nth_append)

lemma delete_array_frame:
  assumes "delete_array p h = Inr h'" "\<not> points_into p vb"
  shows "keeps_block vb h h'"
  using assms
  by (auto simp: delete_array_def keeps_block_def split: ptr.splits if_splits block.splits)

lemma delete_scalar_frame:
  assumes "delete_scalar p h = Inr h'"
  shows "h' = h"
  using assms by (auto simp: delete_scalar_def split: ptr.splits)

lemma store_range_frame:
  assumes "store_range p vs h = Inr h'" "\<not> points_into p vb"
  shows "keeps_block vb h h'"
  using assms
  by (auto simp: store_range_def keeps_block_def split: ptr.splits if_splits block.splits)

lemma store_frame:
  assumes "store p v h = Inr h'" "\<not> points_into p vb"
  shows "keeps_block vb h h'"
  using assms by (simp add: store_def store_range_frame)

lemma std_copy_frame:
  assumes "std_copy first n out h = Inr h'" "\<not> points_into out vb"
  shows "keeps_block vb h h'"
  using assms by (auto simp: std_copy_def store_range_frame split: sum.splits)

lemma checkIndexOrSize_frame:
  assumes "checkIndexOrSize sa h i = (r, h')" "\<not> points_into (m_data sa) vb"
  shows "keeps_block vb h h'"
  using assms
  by (auto simp: checkIndexOrSize_def keeps_block_refl delete_array_frame
           split: if_splits sum.splits)

lemma resize_frame:
  assumes "resize sa h new_sz = (r, sa', h')" "\<not> points_into (m_data sa) vb" "vb < length h"
  shows "keeps_block vb h h' \<and> \<not> points_into (m_data sa') vb"
proof (cases "new_sz = 0")
  case True
  with assms show ?thesis
    by (auto simp: resize_def erase_def keeps_block_refl)
next
  case False
  let ?h1 = "h @ [Array (replicate (unat new_sz) Indeterminate)]"
  let ?arr = "Ptr (length h) 0"
  have k1: "keeps_block vb h ?h1" and fresh: "\<not> points_into ?arr vb"
    using assms(3) by (simp_all add: keeps_block_def nth_append)
  show ?thesis
  proof (cases "std_copy (m_data sa) (unat new_sz) ?arr ?h1")
    case (Inl e)
    with False assms k1 show ?thesis
      by (auto simp: resize_def new_array_def)
  next
    case (Inr h2)
    then have k2: "keeps_block vb ?h1 h2"
      using fresh by (rule std_copy_frame)
    show ?thesis
    proof (cases "delete_array (m_data sa) h2")
      case (Inl e)
      with Inr False assms k1 k2 show ?thesis
        by (auto simp: resize_def new_array_def intro: keeps_block_trans)
    next
      case del: (Inr h3)
      then have "keeps_block vb h2 h3"
        using assms(2) by (rule delete_array_frame)
      with k1 k2 have "keeps_block vb h h3"
        by (blast intro: keeps_block_trans)
      with del Inr False assms(1) fresh show ?thesis
        by (auto simp: resize_def new_array_def)
    qed
  qed
qed

lemma keeps_block_length: "keeps_block vb h h' \<Longrightarrow> vb < length h \<Longrightarrow> vb < length h'"
  by (simp add: keeps_block_def)

lemma put_frame:
  assumes "put sa h v i = (r, sa', h')" "\<not> points_into (m_data sa) vb" "vb < length h"
  shows "keeps_block vb h h' \<and> \<not> points_into (m_data sa') vb"
proof -
  obtain r1 h1 where chk: "checkIndexOrSize sa h i = (r1, h1)"
    by (cases "checkIndexOrSize sa h i")
  then have k1: "keeps_block vb h h1"
    using assms(2) by (rule checkIndexOrSize_frame)
  show ?thesis
  proof (cases r1)
    case (Inl e)
    with chk assms k1 show ?thesis by (simp add: put_def)
  next
    case (Inr u)
    obtain r2 sa2 h2 where rs: "resize sa h1 (grow_size (length' sa)) = (r2, sa2, h2)"
      by (cases "resize sa h1 (grow_size (length' sa))")
    then have k2: "keeps_block vb h1 h2" and p2: "\<not> points_into (m_data sa2) vb"
      using assms(2,3) k1 resize_frame [OF rs, of vb] by (simp_all add: keeps_block_length)
    from k1 k2 have k12: "keeps_block vb h h2"
      by (rule keeps_block_trans)
    show ?thesis
    proof (cases r2)
      case (Inl e)
      with chk Inr rs k12 p2 assms(1) show ?thesis by (simp add: put_def)
    next
      case r2: (Inr u2)
      let ?p = "ptr_add (m_data sa2)
                  (sint (if i <s 0 then ucast (length' sa + 1 + scast i) else i :: 32 word))"
      have np: "\<not> points_into ?p vb"
        using p2 by (simp add: points_into_ptr_add)
      show ?thesis
      proof (cases "store ?p (Value v) h2")
        case (Inl e)
        with chk Inr rs r2 k12 p2 assms(1) show ?thesis by (simp add: put_def)
      next
        case st: (Inr h3)
        then have "keeps_block vb h2 h3"
          using np by (rule store_frame)
        with k12 have "keeps_block vb h h3"
          by (rule keeps_block_trans)
        with chk Inr rs r2 st p2 assms(1) show ?thesis by (simp add: put_def)
      qed
    qed
  qed
qed

lemma pop_frame:
  assumes "pop sa h i = (r, sa', h')" "\<not> points_into (m_data sa) vb" "vb < length h"
  shows "keeps_block vb h h' \<and> \<not> points_into (m_data sa') vb"
proof -
  obtain r1 h1 where chk: "checkIndexOrSize sa h i = (r1, h1)"
    by (cases "checkIndexOrSize sa h i")
  then have k1: "keeps_block vb h h1"
    using assms(2) by (rule checkIndexOrSize_frame)
  show ?thesis
  proof (cases r1)
    case (Inl e)
    with chk assms k1 show ?thesis by (simp add: pop_def)
  next
    case (Inr u)
    let ?p = "ptr_add (m_data sa)
                (sint (if i <s 0 then ucast (length' sa + 1 + scast i) else i :: 32 word))"
    show ?thesis
    proof (cases "delete_scalar ?p h1")
      case (Inl e)
      with chk Inr assms k1 show ?thesis by (simp add: pop_def)
    next
      case del: (Inr h2)
      then have "h2 = h1" by (rule delete_scalar_frame)
      with chk Inr del assms(1) have rs: "resize sa h1 (length' sa - 1) = (r, sa', h')"
        by (simp add: pop_def)
      have "keeps_block vb h1 h' \<and> \<not> points_into (m_data sa') vb"
        using rs assms(2) k1 assms(3) by (intro resize_frame) (auto simp: keeps_block_length)
      with k1 show ?thesis
        by (blast intro: keeps_block_trans)
    qed
  qed
qed

lemma operator_plus_frame:
  assumes "operator_plus sa other h = (r, sa', h')" "\<not> points_into (m_data sa) vb"
    and "vb < length h"
  shows "keeps_block vb h h' \<and> \<not> points_into (m_data sa') vb"
proof -
  obtain r1 sa1 h1 where rs: "resize sa h (length' sa + length' other) = (r1, sa1, h1)"
    by (cases "resize sa h (length' sa + length' other)")
  then have k1: "keeps_block vb h h1" and p1: "\<not> points_into (m_data sa1) vb"
    using assms(2,3) resize_frame [OF rs, of vb] by simp_all
  show ?thesis
  proof (cases r1)
    case (Inl e)
    with rs k1 p1 assms(1) show ?thesis by (simp add: operator_plus_def)
  next
    case (Inr u)
    let ?out = "ptr_add (m_data sa1) (uint (length' sa))"
    have np: "\<not> points_into ?out vb"
      using p1 by (simp add: points_into_ptr_add)
    show ?thesis
    proof (cases "std_copy (m_data other) (unat (length' sa)) ?out h1")
      case (Inl e)
      with rs Inr k1 p1 assms(1) show ?thesis by (simp add: operator_plus_def)
    next
      case cp: (Inr h2)
      then have "keeps_block vb h1 h2"
        using np by (rule std_copy_frame)
      with k1 have "keeps_block vb h h2"
        by (rule keeps_block_trans)
      with rs Inr cp p1 assms(1) show ?thesis by (simp add: operator_plus_def)
    qed
  qed
qed

lemma from_arr_loop_frame:
  assumes "from_arr_loop sa arr arr_len i h = (r, h')" "\<not> points_into (m_data sa) vb"
  shows "keeps_block vb h h'"
  using assms
proof (induction sa arr arr_len i h rule: from_arr_loop.induct)
  case (1 sa arr arr_len i h)
  note run = "1.prems"(1) [unfolded from_arr_loop.simps [of sa arr arr_len i h]]
  show ?case
  proof (cases "(scast i :: 64 word) < arr_len")
    case False
    with run show ?thesis by (simp add: keeps_block_refl)
  next
    case in_range: True
    show ?thesis
    proof (cases "load (ptr_add arr (sint i)) h")
      case (Inl e)
      with run in_range show ?thesis by (simp add: keeps_block_refl)
    next
      case ld: (Inr v)
      show ?thesis
      proof (cases "store (ptr_add (m_data sa) (sint i)) v h")
        case (Inl e)
        with run in_range ld show ?thesis by (simp add: keeps_block_refl)
      next
        case st: (Inr h1)
        have "\<not> points_into (ptr_add (m_data sa) (sint i)) vb"
          using "1.prems"(2) by (simp add: points_into_ptr_add)
        with st have k1: "keeps_block vb h h1"
          by (rule store_frame)
        show ?thesis
        proof (cases "sint i = 2 ^ 31 - 1")
          case True
          with run in_range ld st k1 show ?thesis by simp
        next
          case False
          with run in_range ld st have "from_arr_loop sa arr arr_len (i + 1) h1 = (r, h')"
            by simp
          then have "keeps_block vb h1 h'"
            using "1.IH" [OF in_range ld st False] "1.prems"(2) by simp
          with k1 show ?thesis
            by (rule keeps_block_trans)
        qed
      qed
    qed
  qed
qed

lemma from_arr_frame:
  assumes "from_arr sa h arr arr_len = (r, sa', h')" "\<not> points_into (m_data sa) vb"
    and "vb < length h"
  shows "keeps_block vb h h' \<and> \<not> points_into (m_data sa') vb"
proof -
  obtain r1 sa1 h1 where rs: "resize sa h arr_len = (r1, sa1, h1)"
    by (cases "resize sa h arr_len")
  then have k1: "keeps_block vb h h1" and p1: "\<not> points_into (m_data sa1) vb"
    using assms(2,3) resize_frame [OF rs, of vb] by simp_all
  show ?thesis
  proof (cases r1)
    case (Inl e)
    with rs k1 p1 assms(1) show ?thesis by (simp add: from_arr_def)
  next
    case (Inr u)
    obtain r2 h2 where lp: "from_arr_loop sa1 arr arr_len 0 h1 = (r2, h2)"
      by (cases "from_arr_loop sa1 arr arr_len 0 h1")
    then have "keeps_block vb h1 h2"
      using p1 by (rule from_arr_loop_frame)
    with k1 have "keeps_block vb h h2"
      by (rule keeps_block_trans)
    with rs Inr lp p1 assms(1) show ?thesis
      by (cases r2) (simp_all add: from_arr_def)
  qed
qed

lemma mutate_frame:
  assumes "mutate m sa h = (r, sa', h')" "\<not> points_into (m_data sa) vb" "vb < length h"
  shows "keeps_block vb h h' \<and> \<not> points_into (m_data sa') vb"
proof (cases m)
  case (Put v i)
  with assms show ?thesis by (simp add: put_frame)
next
  case (Append v)
  with assms show ?thesis by (simp add: append_def put_frame)
next
  case (Pop i)
  with assms show ?thesis by (simp add: pop_frame)
next
  case (Plus other)
  with assms show ?thesis by (simp add: operator_plus_frame)
next
  case (FromArr arr n)
  with assms show ?thesis by (simp add: from_arr_frame)
qed

lemma mutate_all_frame:
  assumes "mutate_all ms sa h = (r, sa', h')" "\<not> points_into (m_data sa) vb" "vb < length h"
  shows "keeps_block vb h h'"
  using assms
proof (induction ms arbitrary: sa h)
  case Nil
  then show ?case by (simp add: keeps_block_refl)
next
  case (Cons m ms)
  obtain r1 sa1 h1 where step: "mutate m sa h = (r1, sa1, h1)"
    by (cases "mutate m sa h")
  then have k1: "keeps_block vb h h1" and p1: "\<not> points_into (m_data sa1) vb"
    using Cons.prems(2,3) mutate_frame [OF step, of vb] by simp_all
  show ?case
  proof (cases r1)
    case (Inl e)
    with step k1 Cons.prems(1) show ?thesis by simp
  next
    case (Inr u)
    with step Cons.prems(1) have "mutate_all ms sa1 h1 = (r, sa', h')"
      by simp
    then have "keeps_block vb h1 h'"
      using p1 k1 Cons.prems(3) by (intro Cons.IH) (auto simp: keeps_block_length)
    with k1 show ?thesis
      by (rule keeps_block_trans)
  qed
qed

lemma valid_apart:
  assumes "valid sa h" "length h \<le> vb"
  shows "\<not> points_into (m_data sa) vb"
  using assms by (cases "m_data sa") (auto simp: valid_def)

text \<open>
  C10.  The view is claimed to stay as it is under every later mutation of the source.
  The constructor does give the view a buffer of its own, but \<open>operator+\<close> on the
  source writes \<open>old_length\<close> cells at offset \<open>old_length\<close> of a buffer of
  \<open>old_length + other.length\<close> cells.  With a view over \<open>a = {1, 2, 3, 4, 5}\<close> (in a
  buffer with room for six cells) and \<open>b\<close> of length 1 (in a buffer of five cells),
  \<open>a + b\<close> writes five cells at offset 5 of the new six-cell buffer of \<open>a\<close>: four
  cells past its end, into storage the source does not own, after which nothing is
  guaranteed about any other buffer, the view's included.
\<close>

theorem operator_plus_overruns_beside_view:
  "SmartArrayReverse_ctor 0 (SmartArray_raw (Ptr 0 0) 5)
       [Array [Value 1, Value 2, Value 3, Value 4, Value 5, Value 0],
        Array [Value 10, Value 20, Value 30, Value 40, Value (50::int)]] =
     (Inr \<lparr>m_data = NULL, length' = 0, iter = SmartArray_raw (Ptr 3 0) 5\<rparr>,
      [Array [Value 1, Value 2, Value 3, Value 4, Value 5, Value 0],
       Array [Value 10, Value 20, Value 30, Value 40, Value 50],
       Freed, Array [Value 5, Value 4, Value 3, Value 2, Value 1], Freed]) \<and>
   operator_plus (SmartArray_raw (Ptr 0 0) 5) (SmartArray_raw (Ptr 1 0) 1)
       [Array [Value 1, Value 2, Value 3, Value 4, Value 5, Value 0],
        Array [Value 10, Value 20, Value 30, Value 40, Value (50::int)],
        Freed, Array [Value 5, Value 4, Value 3, Value 2, Value 1], Freed] =
     (Inl OutOfBoundsWrite, SmartArray_raw (Ptr 5 0) 6,
      [Freed, Array [Value 10, Value 20, Value 30, Value 40, Value 50], Freed,
       Array [Value 5, Value 4, Value 3, Value 2, Value 1], Freed,
       Array [Value 1, Value 2, Value 3, Value 4, Value 5, Value 0]])"
  by code_simp

text \<open>
  What the copy does achieve: in a run of mutations of the source that stays within
  defined behaviour (every call returns, or the run ends at the \<open>throw\<close> of
  \<open>checkIndexOrSize\<close>), the traversal of the view is afterwards what it was at
  construction time.  Nothing is stated here about a run that stops at an access the
  C++ standard leaves undefined.
\<close>

lemma view_kept_in_defined_runs:
  assumes "valid source h" and "range_for source h = Inr xs"
    and "uint (length' source) \<le> 2 ^ 31"
    and "SmartArrayReverse_ctor dv source h = (Inr view, h1)"
    and "mutate_all ms source h1 = (r, source', h2)"
    and "r = Inr () \<or> r = Inl IndexOutOfBounds"
  shows "range_for_reverse view h1 = Inr (rev xs) \<and>
         range_for_reverse view h2 = Inr (rev xs)"
proof -
  let ?vb = "Suc (length h)"
  let ?it = "\<lparr>m_data = Ptr ?vb 0, length' = length' source\<rparr>"
  from assms(2) have "load_range (m_data source) (unat (length' source)) h = Inr xs"
    by (simp add: range_for_def)
  then have len: "length xs = unat (length' source)"
    by (rule load_range_length)
  have "SmartArrayReverse_ctor dv source h =
          (Inr \<lparr>m_data = NULL, length' = 0, iter = ?it\<rparr>, h @ [Freed, Array (rev xs), Freed])"
    using assms(2,3) by (rule SmartArrayReverse_ctor_result)
  with assms(4) have view: "iter view = ?it" and h1: "h1 = h @ [Freed, Array (rev xs), Freed]"
    by auto
  have apart: "\<not> points_into (m_data source) ?vb"
    using assms(1) by (rule valid_apart) simp
  have inside: "?vb < length h1"
    using h1 by simp
  have "keeps_block ?vb h1 h2"
    using assms(5) apart inside by (rule mutate_all_frame)
  then have "?vb < length h2" and "h2 ! ?vb = Array (rev xs)"
    using h1 by (simp_all add: keeps_block_def nth_append)
  then have "live_buffer ?it h2 ?vb (rev xs)"
    using len by (simp add: live_buffer_def)
  then have "range_for ?it h2 = Inr (take (unat (length' ?it)) (rev xs))"
    by (rule range_for_live)
  then have after: "range_for_reverse view h2 = Inr (rev xs)"
    using view len by (simp add: range_for_reverse_def)
  have "live_buffer ?it h1 ?vb (rev xs)"
    using len h1 by (simp add: live_buffer_def nth_append)
  then have "range_for ?it h1 = Inr (take (unat (length' ?it)) (rev xs))"
    by (rule range_for_live)
  then have before: "range_for_reverse view h1 = Inr (rev xs)"
    using view len by (simp add: range_for_reverse_def)
  from before after show ?thesis
    by simp
qed

text \<open>
  Two such runs, on a source of length 2 in a buffer with room for five cells:
  \<open>a + b\<close> followed by \<open>a.from_arr(b.m_data, 3)\<close>, and \<open>a.append(9)\<close> followed by
  \<open>a.from_arr(b.m_data, 2)\<close>.  Both return, and the view still traverses as \<open>2, 1\<close>.
\<close>

lemma view_kept_example_runs:
  "mutate_all [Plus (SmartArray_raw (Ptr 1 0) 3), FromArr (Ptr 1 0) 3] (SmartArray_raw (Ptr 0 0) 2)
       [Array [Value 1, Value 2, Value 0, Value 0, Value 0],
        Array [Value 10, Value 20, Value (30::int)], Freed, Array [Value 2, Value 1], Freed] =
     (Inr (), SmartArray_raw (Ptr 6 0) 3,
      [Freed, Array [Value 10, Value 20, Value 30], Freed, Array [Value 2, Value 1], Freed,
       Freed, Array [Value 10, Value 20, Value 30]]) \<and>
   mutate_all [Append 9, FromArr (Ptr 1 0) 2] (SmartArray_raw (Ptr 0 0) 2)
       [Array [Value 1, Value 2, Value 0, Value 0, Value 0],
        Array [Value 10, Value 20, Value (30::int)], Freed, Array [Value 2, Value 1], Freed] =
     (Inr (), SmartArray_raw (Ptr 6 0) 2,
      [Freed, Array [Value 10, Value 20, Value 30], Freed, Array [Value 2, Value 1], Freed,
       Freed, Array [Value 10, Value 20]]) \<and>
   range_for_reverse \<lparr>m_data = NULL, length' = 0, iter = SmartArray_raw (Ptr 3 0) 2\<rparr>
       [Freed, Array [Value 10, Value 20, Value 30], Freed, Array [Value 2, Value 1], Freed,
        Freed, Array [Value 10, Value 20, Value (30::int)]] =
     Inr [Value 2, Value 1]"
  by code_simp

end
